theory Spec2Isabelle
  imports Main "HOL-Library.Word" "HOL-Library.Monad_Syntax"
begin

section \<open>The value pool of the Lisp runtime (source/script/lisp.cpp)\<close>

text \<open>
  A cell reference (\<open>Value*\<close>, or a compressed reference) is the index of the cell in
  \<open>value_pool_data\<close>; a nullable \<open>Value*\<close> is a \<open>ptr option\<close>. The union
  \<open>ValueMemory\<close> together with the header's type tag and mode bits is one datatype: the
  constructor is the tag, its arguments are the payload of that variant. Every function that
  can run the collector takes a recursion budget first (the collector recurses over the object
  graph and does not terminate on every graph); the result \<open>None\<close> stands for a run that
  does not return within the budget or that reads a payload through the wrong variant.
\<close>

type_synonym ptr = nat

datatype Code = out_of_memory | mismatched_parentheses | undefined_variable_access
  | invalid_argc | invalid_argument_type | value_not_callable | invalid_syntax

datatype Type = T_heap_node | T_nil | T_integer | T_cons | T_function | T_error | T_symbol
  | T_user_data | T_data_buffer | T_string | T_character | T_reserved

datatype Obj =
    HeapNode "ptr option"
  | NilCell
  | Integer "32 word"
  | ConsCell ptr ptr
  | Function_cpp nat
  | Function_lisp ptr ptr
  | Function_bytecode ptr ptr
  | Error Code ptr
  | Symbol nat
  | UserData nat
  | DataBuffer nat
  | StringCell ptr nat
  | Character
  | Reserved

record Value =
  alive :: bool
  mark_bit :: bool
  obj :: Obj

fun type_of_obj :: "Obj \<Rightarrow> Type" where
  "type_of_obj (HeapNode n) = T_heap_node"
| "type_of_obj NilCell = T_nil"
| "type_of_obj (Integer i) = T_integer"
| "type_of_obj (ConsCell a d) = T_cons"
| "type_of_obj (Function_cpp f) = T_function"
| "type_of_obj (Function_lisp c l) = T_function"
| "type_of_obj (Function_bytecode b l) = T_function"
| "type_of_obj (Error c x) = T_error"
| "type_of_obj (Symbol n) = T_symbol"
| "type_of_obj (UserData u) = T_user_data"
| "type_of_obj (DataBuffer b) = T_data_buffer"
| "type_of_obj (StringCell b off) = T_string"
| "type_of_obj Character = T_character"
| "type_of_obj Reserved = T_reserved"

definition VALUE_POOL_SIZE :: nat where
  "VALUE_POOL_SIZE = 9000"

text \<open>A \<open>Protected\<close> object in automatic storage: the two links of \<open>ProtectedBase\<close> and
  the protected reference.\<close>

record Protected =
  p_prev :: "nat option"
  p_next :: "nat option"
  p_val :: ptr

text \<open>
  The process-wide state: the pool and its free-list head, the fields of \<open>Context\<close>, the
  head of the protected list with the memory the \<open>Protected\<close> objects live in
  (\<open>c_stack\<close> is the next free address of automatic storage), and the host's scratch
  buffers (the bytes of each buffer by handle, the number the host can still hand out, the
  next handle). \<open>gc_passes\<close> is a history counter that \<open>run_gc\<close> increments; no function
  reads it.
\<close>

record State =
  value_pool_data :: "ptr \<Rightarrow> Value"
  value_pool :: "ptr option"
  operand_stack :: "ptr list"
  arguments_break_loc :: nat
  current_fn_argc :: nat
  this_val :: ptr
  nil_val :: ptr
  oom_val :: ptr
  string_buffer :: ptr
  globals_tree :: ptr
  lexical_bindings :: ptr
  macros :: ptr
  interns :: "char list"
  string_intern_pos :: nat
  interp_entry_count :: int
  protected_values :: "nat option"
  protected_mem :: "nat \<Rightarrow> Protected"
  scratch_buffers_remaining :: nat
  scratch_data :: "nat \<Rightarrow> nat \<Rightarrow> char"
  scratch_next :: nat
  c_stack :: nat
  gc_passes :: nat

definition cell :: "State \<Rightarrow> ptr \<Rightarrow> Value" where
  "cell s p = value_pool_data s p"

definition type_at :: "State \<Rightarrow> ptr \<Rightarrow> Type" where
  "type_at s p = type_of_obj (obj (value_pool_data s p))"

definition set_obj :: "ptr \<Rightarrow> Obj \<Rightarrow> State \<Rightarrow> State" where
  "set_obj p x s = s\<lparr>value_pool_data := (value_pool_data s)(p := (value_pool_data s p)\<lparr>obj := x\<rparr>)\<rparr>"

subsection \<open>value_pool_init, value_pool_alloc, value_pool_free\<close>

definition free_cell :: "ptr option \<Rightarrow> Value" where
  "free_cell n = \<lparr>alive = False, mark_bit = False, obj = HeapNode n\<rparr>"

text \<open>The loop of \<open>value_pool_init\<close>, from index \<open>i\<close> for \<open>k\<close> more cells.\<close>

fun value_pool_init_loop :: "nat \<Rightarrow> nat \<Rightarrow> State \<Rightarrow> State" where
  "value_pool_init_loop i 0 s = s"
| "value_pool_init_loop i (Suc k) s =
     value_pool_init_loop (Suc i) k
       (s\<lparr>value_pool_data := (value_pool_data s)(i := free_cell (value_pool s)),
          value_pool := Some i\<rparr>)"

definition value_pool_init :: "State \<Rightarrow> State" where
  "value_pool_init s = value_pool_init_loop 0 VALUE_POOL_SIZE s"

definition value_pool_alloc :: "State \<Rightarrow> (ptr option \<times> State) option" where
  "value_pool_alloc s =
     (case value_pool s of
        Some ret \<Rightarrow>
          (case obj (value_pool_data s ret) of
             HeapNode n \<Rightarrow> Some (Some ret, s\<lparr>value_pool := n\<rparr>)
           | _ \<Rightarrow> None)
      | None \<Rightarrow> Some (None, s))"

definition value_pool_free :: "ptr \<Rightarrow> State \<Rightarrow> State" where
  "value_pool_free v s =
     s\<lparr>value_pool_data := (value_pool_data s)(v := free_cell (value_pool s)),
       value_pool := Some v\<rparr>"

subsection \<open>The mark phase\<close>

definition set_mark :: "ptr \<Rightarrow> (ptr \<Rightarrow> Value) \<Rightarrow> (ptr \<Rightarrow> Value)" where
  "set_mark p h = h(p := (h p)\<lparr>mark_bit := True\<rparr>)"

definition is_cons :: "(ptr \<Rightarrow> Value) \<Rightarrow> ptr \<Rightarrow> bool" where
  "is_cons h p = (type_of_obj (obj (h p)) = T_cons)"

text \<open>
  \<open>gc_mark_value\<close> and the loop of its cons case, which walks the cdr chain marking every
  cell it steps onto and returns the last cell of the chain.
\<close>

fun gc_mark_value :: "nat \<Rightarrow> ptr \<Rightarrow> (ptr \<Rightarrow> Value) \<Rightarrow> (ptr \<Rightarrow> Value) option"
  and gc_mark_cdr_chain :: "nat \<Rightarrow> ptr \<Rightarrow> (ptr \<Rightarrow> Value) \<Rightarrow> (ptr \<times> (ptr \<Rightarrow> Value)) option"
where
  "gc_mark_value 0 v h = None"
| "gc_mark_value (Suc n) v h =
     (if mark_bit (h v) then Some h
      else
        (case obj (h v) of
           Function_lisp code lb \<Rightarrow>
             (case gc_mark_value n code h of None \<Rightarrow> None
              | Some h1 \<Rightarrow>
                  (case gc_mark_value n lb h1 of None \<Rightarrow> None
                   | Some h2 \<Rightarrow> Some (set_mark v h2)))
         | Function_bytecode bc lb \<Rightarrow>
             (case gc_mark_value n bc h of None \<Rightarrow> None
              | Some h1 \<Rightarrow>
                  (case gc_mark_value n lb h1 of None \<Rightarrow> None
                   | Some h2 \<Rightarrow> Some (set_mark v h2)))
         | StringCell db off \<Rightarrow>
             (case gc_mark_value n db h of None \<Rightarrow> None
              | Some h1 \<Rightarrow> Some (set_mark v h1))
         | Error c ctx \<Rightarrow>
             (case gc_mark_value n ctx h of None \<Rightarrow> None
              | Some h1 \<Rightarrow> Some (set_mark v h1))
         | ConsCell a d \<Rightarrow>
             (if is_cons h d then
                (case gc_mark_cdr_chain n v h of None \<Rightarrow> None
                 | Some (current, h1) \<Rightarrow>
                     (case obj (h1 current) of
                        ConsCell a1 d1 \<Rightarrow>
                          (case gc_mark_value n a1 h1 of None \<Rightarrow> None
                           | Some h2 \<Rightarrow>
                               (case gc_mark_value n d1 h2 of None \<Rightarrow> None
                                | Some h3 \<Rightarrow> Some (set_mark v h3)))
                      | _ \<Rightarrow> None))
              else
                (case gc_mark_value n a h of None \<Rightarrow> None
                 | Some h1 \<Rightarrow>
                     (case gc_mark_value n d h1 of None \<Rightarrow> None
                      | Some h2 \<Rightarrow> Some (set_mark v h2))))
         | _ \<Rightarrow> Some (set_mark v h)))"
| "gc_mark_cdr_chain 0 current h = None"
| "gc_mark_cdr_chain (Suc n) current h =
     (case obj (h current) of
        ConsCell a d \<Rightarrow>
          (if is_cons h d then
             (case gc_mark_value n a h of None \<Rightarrow> None
              | Some h1 \<Rightarrow>
                  (case obj (h1 current) of
                     ConsCell a1 d1 \<Rightarrow> gc_mark_cdr_chain n d1 (set_mark d1 h1)
                   | _ \<Rightarrow> None))
           else Some (current, h))
      | _ \<Rightarrow> None)"

subsection \<open>Cons accessors, the operand stack\<close>

text \<open>\<open>cons().car()\<close>, \<open>cons().cdr()\<close> and the setters; on a cell that is not a cons the
  model stops (\<open>None\<close>).\<close>

definition car :: "State \<Rightarrow> ptr \<Rightarrow> ptr option" where
  "car s p = (case obj (value_pool_data s p) of ConsCell a d \<Rightarrow> Some a | _ \<Rightarrow> None)"

definition cdr :: "State \<Rightarrow> ptr \<Rightarrow> ptr option" where
  "cdr s p = (case obj (value_pool_data s p) of ConsCell a d \<Rightarrow> Some d | _ \<Rightarrow> None)"

definition set_car :: "ptr \<Rightarrow> ptr \<Rightarrow> State \<Rightarrow> State option" where
  "set_car p v s =
     (case obj (value_pool_data s p) of ConsCell a d \<Rightarrow> Some (set_obj p (ConsCell v d) s)
      | _ \<Rightarrow> None)"

definition set_cdr :: "ptr \<Rightarrow> ptr \<Rightarrow> State \<Rightarrow> State option" where
  "set_cdr p v s =
     (case obj (value_pool_data s p) of ConsCell a d \<Rightarrow> Some (set_obj p (ConsCell a v) s)
      | _ \<Rightarrow> None)"

text \<open>
  Modelled from the spec: the operand stack is a \<open>Buffer<Value*, 497>\<close> of
  memory/buffer.hpp, which is not among the sources; the spec gives it as a bounded sequence
  with push, pop and indexing from the top. The list holds the bottom element first, as the
  buffer does. A push onto a full stack and a pop from an empty one leave the stack as it is;
  reading the top of an empty stack stops the model.
\<close>

definition OPERAND_STACK_SIZE :: nat where
  "OPERAND_STACK_SIZE = 497"

definition push_op :: "ptr \<Rightarrow> State \<Rightarrow> State" where
  "push_op operand s =
     (if length (operand_stack s) < OPERAND_STACK_SIZE
      then s\<lparr>operand_stack := operand_stack s @ [operand]\<rparr> else s)"

definition pop_op :: "State \<Rightarrow> State" where
  "pop_op s = s\<lparr>operand_stack := butlast (operand_stack s)\<rparr>"

definition get_op0 :: "State \<Rightarrow> ptr option" where
  "get_op0 s = (if operand_stack s = [] then None else Some (last (operand_stack s)))"

definition get_op1 :: "State \<Rightarrow> ptr option" where
  "get_op1 s =
     (if length (operand_stack s) < 2 then None
      else Some (operand_stack s ! (length (operand_stack s) - 2)))"

definition get_op :: "State \<Rightarrow> nat \<Rightarrow> ptr" where
  "get_op s offset =
     (if offset \<ge> length (operand_stack s) then nil_val s
      else operand_stack s ! ((length (operand_stack s) - 1) - offset))"

subsection \<open>globals_tree_traverse\<close>

definition left_subtree :: "State \<Rightarrow> ptr \<Rightarrow> ptr option" where
  "left_subtree s tree = (case cdr s tree of None \<Rightarrow> None | Some d \<Rightarrow> car s d)"

definition right_subtree :: "State \<Rightarrow> ptr \<Rightarrow> ptr option" where
  "right_subtree s tree = (case cdr s tree of None \<Rightarrow> None | Some d \<Rightarrow> cdr s d)"

definition set_right_subtree :: "ptr \<Rightarrow> ptr \<Rightarrow> State \<Rightarrow> State option" where
  "set_right_subtree tree v s = (case cdr s tree of None \<Rightarrow> None | Some d \<Rightarrow> set_cdr d v s)"

text \<open>The inner loop of the traversal: the rightmost node of the left subtree that is not
  already threaded to \<open>current\<close>.\<close>

fun traverse_rightmost :: "nat \<Rightarrow> State \<Rightarrow> ptr \<Rightarrow> ptr \<Rightarrow> ptr option" where
  "traverse_rightmost 0 s current prev = None"
| "traverse_rightmost (Suc n) s current prev =
     (case right_subtree s prev of
        None \<Rightarrow> None
      | Some r \<Rightarrow>
          (if r \<noteq> nil_val s \<and> r \<noteq> current then traverse_rightmost n s current r
           else Some prev))"

text \<open>The outer loop, in place with threads (Morris). The callback gets the key-value pair
  and the node, and may change the state.\<close>

fun globals_tree_traverse_loop ::
  "nat \<Rightarrow> (ptr \<Rightarrow> ptr \<Rightarrow> State \<Rightarrow> State option) \<Rightarrow> ptr \<Rightarrow> State \<Rightarrow> State option" where
  "globals_tree_traverse_loop 0 callback current s = None"
| "globals_tree_traverse_loop (Suc n) callback current s =
     (if current = nil_val s then Some s
      else
        (case left_subtree s current of
           None \<Rightarrow> None
         | Some l \<Rightarrow>
             (if l = nil_val s then
                (case car s current of
                   None \<Rightarrow> None
                 | Some kvp \<Rightarrow>
                     (case callback kvp current s of
                        None \<Rightarrow> None
                      | Some s1 \<Rightarrow>
                          (case right_subtree s1 current of
                             None \<Rightarrow> None
                           | Some r \<Rightarrow> globals_tree_traverse_loop n callback r s1)))
              else
                (case traverse_rightmost n s current l of
                   None \<Rightarrow> None
                 | Some prev \<Rightarrow>
                     (case right_subtree s prev of
                        None \<Rightarrow> None
                      | Some pr \<Rightarrow>
                          (if pr = nil_val s then
                             (case set_right_subtree prev current s of
                                None \<Rightarrow> None
                              | Some s1 \<Rightarrow>
                                  (case left_subtree s1 current of
                                     None \<Rightarrow> None
                                   | Some l1 \<Rightarrow> globals_tree_traverse_loop n callback l1 s1))
                           else
                             (case set_right_subtree prev (nil_val s) s of
                                None \<Rightarrow> None
                              | Some s1 \<Rightarrow>
                                  (case car s1 current of
                                     None \<Rightarrow> None
                                   | Some kvp \<Rightarrow>
                                       (case callback kvp current s1 of
                                          None \<Rightarrow> None
                                        | Some s2 \<Rightarrow>
                                            (case right_subtree s2 current of
                                               None \<Rightarrow> None
                                             | Some r \<Rightarrow>
                                                 globals_tree_traverse_loop n callback r s2))))))))))"

definition globals_tree_traverse ::
  "nat \<Rightarrow> ptr \<Rightarrow> (ptr \<Rightarrow> ptr \<Rightarrow> State \<Rightarrow> State option) \<Rightarrow> State \<Rightarrow> State option" where
  "globals_tree_traverse n root callback s =
     (if root = nil_val s then Some s else globals_tree_traverse_loop n callback root s)"

subsection \<open>Protected roots\<close>

text \<open>
  \<open>ProtectedBase::ProtectedBase\<close> for the object at address \<open>this\<close> (with the reference
  \<open>Protected\<close> stores), and \<open>ProtectedBase::~ProtectedBase\<close>. The constructor reads
  the list head into the local \<open>plist\<close> and its last statement assigns \<open>this\<close> to that
  local: the head \<open>__protected_values\<close> itself is not written.
\<close>

definition Protected_ctor :: "nat \<Rightarrow> ptr \<Rightarrow> State \<Rightarrow> State" where
  "Protected_ctor this v s =
     (let plist = protected_values s;
          m0 = (protected_mem s)(this := \<lparr>p_prev = p_prev (protected_mem s this), p_next = None, p_val = v\<rparr>)
      in (case plist of
            Some pl \<Rightarrow>
              (let m1 = m0(pl := (m0 pl)\<lparr>p_next := Some this\<rparr>);
                   m2 = m1(this := (m1 this)\<lparr>p_prev := Some pl\<rparr>)
               in s\<lparr>protected_mem := m2\<rparr>)
          | None \<Rightarrow> s\<lparr>protected_mem := m0(this := (m0 this)\<lparr>p_prev := None\<rparr>)\<rparr>))"

definition Protected_dtor :: "nat \<Rightarrow> State \<Rightarrow> State" where
  "Protected_dtor this s =
     (let m0 = protected_mem s;
          m1 = (case p_next (m0 this) of
                  Some nx \<Rightarrow> m0(nx := (m0 nx)\<lparr>p_prev := p_prev (m0 this)\<rparr>)
                | None \<Rightarrow> m0);
          m2 = (case p_prev (m1 this) of
                  Some pv \<Rightarrow> m1(pv := (m1 pv)\<lparr>p_next := p_next (m1 this)\<rparr>)
                | None \<Rightarrow> m1)
      in s\<lparr>protected_mem := m2\<rparr>)"

definition Protected_set :: "nat \<Rightarrow> ptr \<Rightarrow> State \<Rightarrow> State" where
  "Protected_set this v s =
     s\<lparr>protected_mem := (protected_mem s)(this := (protected_mem s this)\<lparr>p_val := v\<rparr>)\<rparr>"

subsection \<open>gc_mark, gc_sweep, run_gc\<close>

definition mark_value :: "nat \<Rightarrow> ptr \<Rightarrow> State \<Rightarrow> State option" where
  "mark_value n v s =
     (case gc_mark_value n v (value_pool_data s) of
        None \<Rightarrow> None
      | Some h \<Rightarrow> Some (s\<lparr>value_pool_data := h\<rparr>))"

fun mark_stack :: "nat \<Rightarrow> ptr list \<Rightarrow> State \<Rightarrow> State option" where
  "mark_stack n [] s = Some s"
| "mark_stack n (elem # rest) s =
     (case mark_value n elem s of None \<Rightarrow> None | Some s1 \<Rightarrow> mark_stack n rest s1)"

text \<open>The visitor \<open>gc_mark\<close> passes to the traversal of the globals tree.\<close>

definition mark_tree_node :: "nat \<Rightarrow> ptr \<Rightarrow> ptr \<Rightarrow> State \<Rightarrow> State option" where
  "mark_tree_node n kvp node s =
     (case cdr s node of
        None \<Rightarrow> None
      | Some d \<Rightarrow>
          mark_value n kvp
            (s\<lparr>value_pool_data := set_mark d (set_mark node (value_pool_data s))\<rparr>))"

text \<open>The walk over the protected list, from the head along \<open>next()\<close>.\<close>

fun mark_protected :: "nat \<Rightarrow> nat option \<Rightarrow> State \<Rightarrow> State option" where
  "mark_protected 0 p_list s = None"
| "mark_protected (Suc n) None s = Some s"
| "mark_protected (Suc n) (Some p) s =
     (case mark_value n (p_val (protected_mem s p)) s of
        None \<Rightarrow> None
      | Some s1 \<Rightarrow> mark_protected n (p_next (protected_mem s1 p)) s1)"

definition gc_mark :: "nat \<Rightarrow> State \<Rightarrow> State option" where
  "gc_mark n s =
     (case mark_value n (nil_val s) s of None \<Rightarrow> None | Some s1 \<Rightarrow>
     (case mark_value n (oom_val s1) s1 of None \<Rightarrow> None | Some s2 \<Rightarrow>
     (case mark_value n (lexical_bindings s2) s2 of None \<Rightarrow> None | Some s3 \<Rightarrow>
     (case mark_value n (macros s3) s3 of None \<Rightarrow> None | Some s4 \<Rightarrow>
     (case mark_stack n (operand_stack s4) s4 of None \<Rightarrow> None | Some s5 \<Rightarrow>
     (case globals_tree_traverse n (globals_tree s5) (mark_tree_node n) s5 of None \<Rightarrow> None | Some s6 \<Rightarrow>
     (case mark_value n (this_val s6) s6 of None \<Rightarrow> None | Some s7 \<Rightarrow>
        mark_protected n (protected_values s7) s7)))))))"

text \<open>
  Modelled from the spec: the finalizers are declared in lisp.hpp, which is not among the
  sources, except \<open>DataBuffer::finalizer\<close>, which destroys the cell's scratch-buffer handle;
  by the spec all other finalizers are no-ops, and releasing a handle gives the buffer back
  to the host.
\<close>

definition invoke_finalizer :: "ptr \<Rightarrow> State \<Rightarrow> State" where
  "invoke_finalizer v s =
     (case obj (value_pool_data s v) of
        DataBuffer b \<Rightarrow> s\<lparr>scratch_buffers_remaining := scratch_buffers_remaining s + 1\<rparr>
      | _ \<Rightarrow> s)"

definition sweep_cell :: "ptr \<Rightarrow> nat \<times> State \<Rightarrow> nat \<times> State" where
  "sweep_cell i cs =
     (let collect_count = fst cs; s = snd cs; v = value_pool_data s i in
      if alive v then
        (if mark_bit v
         then (collect_count, s\<lparr>value_pool_data := (value_pool_data s)(i := v\<lparr>mark_bit := False\<rparr>)\<rparr>)
         else (collect_count + 1, value_pool_free i (invoke_finalizer i s)))
      else (collect_count, s))"

definition gc_sweep :: "State \<Rightarrow> nat \<times> State" where
  "gc_sweep s =
     (let s0 = (if \<not> mark_bit (value_pool_data s (string_buffer s))
                then s\<lparr>string_buffer := nil_val s\<rparr> else s)
      in fold sweep_cell [0..<VALUE_POOL_SIZE] (0, s0))"

definition run_gc :: "nat \<Rightarrow> State \<Rightarrow> (nat \<times> State) option" where
  "run_gc n s =
     (case gc_mark n s of
        None \<Rightarrow> None
      | Some s1 \<Rightarrow>
          (let r = gc_sweep s1
           in Some (fst r, (snd r)\<lparr>gc_passes := gc_passes (snd r) + 1\<rparr>)))"

subsection \<open>alloc_value and the constructors\<close>

definition init_val :: "ptr \<Rightarrow> State \<Rightarrow> State" where
  "init_val v s =
     s\<lparr>value_pool_data :=
         (value_pool_data s)(v := (value_pool_data s v)\<lparr>mark_bit := False, alive := True\<rparr>)\<rparr>"

definition alloc_value :: "nat \<Rightarrow> State \<Rightarrow> (ptr option \<times> State) option" where
  "alloc_value n s =
     (case value_pool_alloc s of
        None \<Rightarrow> None
      | Some (Some v, s1) \<Rightarrow> Some (Some v, init_val v s1)
      | Some (None, s1) \<Rightarrow>
          (case run_gc n s1 of
             None \<Rightarrow> None
           | Some (c, s2) \<Rightarrow>
               (case value_pool_alloc s2 of
                  None \<Rightarrow> None
                | Some (Some v, s3) \<Rightarrow> Some (Some v, init_val v s3)
                | Some (None, s3) \<Rightarrow> Some (None, s3))))"

text \<open>Every constructor has this shape: a slot from \<open>alloc_value\<close> gets its tag and payload,
  and without a slot the result is \<open>bound_context->oom_\<close>.\<close>

definition construct :: "nat \<Rightarrow> Obj \<Rightarrow> State \<Rightarrow> (ptr \<times> State) option" where
  "construct n x s =
     (case alloc_value n s of
        None \<Rightarrow> None
      | Some (Some v, s1) \<Rightarrow> Some (v, set_obj v x s1)
      | Some (None, s1) \<Rightarrow> Some (oom_val s1, s1))"


definition make_lisp_function :: "nat \<Rightarrow> ptr \<Rightarrow> State \<Rightarrow> (ptr \<times> State) option" where
  "make_lisp_function n impl s = construct n (Function_lisp impl (lexical_bindings s)) s"

definition make_bytecode_function :: "nat \<Rightarrow> ptr \<Rightarrow> State \<Rightarrow> (ptr \<times> State) option" where
  "make_bytecode_function n bytecode s =
     construct n (Function_bytecode bytecode (lexical_bindings s)) s"

definition make_cons :: "nat \<Rightarrow> ptr \<Rightarrow> ptr \<Rightarrow> State \<Rightarrow> (ptr \<times> State) option" where
  "make_cons n a d s = construct n (ConsCell a d) s"

definition make_integer :: "nat \<Rightarrow> 32 word \<Rightarrow> State \<Rightarrow> (ptr \<times> State) option" where
  "make_integer n v s = construct n (Integer v) s"

definition make_error :: "nat \<Rightarrow> Code \<Rightarrow> ptr \<Rightarrow> State \<Rightarrow> (ptr \<times> State) option" where
  "make_error n error_code context s = construct n (Error error_code context) s"


definition intern_to_symbol :: "nat \<Rightarrow> nat \<Rightarrow> State \<Rightarrow> (ptr \<times> State) option" where
  "intern_to_symbol n already_interned_str s = construct n (Symbol already_interned_str) s"

subsection \<open>The intern table\<close>

text \<open>
  Modelled from the spec: \<open>str_len\<close> and \<open>str_cmp\<close> are declared in a header that is not
  among the sources; they have the meaning of the C library's \<open>strlen\<close> and \<open>strcmp\<close>.
  A C string argument is its bytes before the terminating NUL. A pointer into the arena is
  its offset from the arena's first byte. Reading the arena past its end stops the model.
\<close>

definition string_intern_table_size :: nat where
  "string_intern_table_size = 1999"

definition NUL :: char where
  "NUL = CHR 0x00"

text \<open>\<open>str_cmp(search + i, string) == 0\<close>.\<close>

fun str_cmp_eq :: "char list \<Rightarrow> nat \<Rightarrow> string \<Rightarrow> bool option" where
  "str_cmp_eq a i [] = (if i < length a then Some (a ! i = NUL) else None)"
| "str_cmp_eq a i (c # cs) =
     (if i < length a then (if a ! i = c then str_cmp_eq a (Suc i) cs else Some False)
      else None)"

text \<open>\<open>while (search[i] not_eq '\0') ++i;\<close>\<close>

function skip_to_nul :: "char list \<Rightarrow> nat \<Rightarrow> nat option" where
  "skip_to_nul a i =
     (if i < length a then (if a ! i \<noteq> NUL then skip_to_nul a (Suc i) else Some i) else None)"
  by pat_completeness auto
termination
  by (relation "measure (\<lambda>(a, i). length a - i)") auto

declare skip_to_nul.simps [simp del]

lemma skip_to_nul_ge: "skip_to_nul a i = Some j \<Longrightarrow> i \<le> j"
proof (induction a i rule: skip_to_nul.induct)
  case (1 a i)
  show ?case
  proof (cases "i < length a \<and> a ! i \<noteq> NUL")
    case True
    with 1 have "Suc i \<le> j" by (simp add: skip_to_nul.simps[of a i])
    then show ?thesis by simp
  next
    case False
    with 1(2) show ?thesis by (simp add: skip_to_nul.simps[of a i] split: if_splits)
  qed
qed

text \<open>The search loop of \<open>intern\<close>: the offset of the first entry equal to the string.\<close>

function intern_search :: "char list \<Rightarrow> nat \<Rightarrow> nat \<Rightarrow> string \<Rightarrow> nat option option" where
  "intern_search a pos i str =
     (if i < pos then
        (case str_cmp_eq a i str of
           None \<Rightarrow> None
         | Some True \<Rightarrow> Some (Some i)
         | Some False \<Rightarrow>
             (case skip_to_nul a i of
                None \<Rightarrow> None
              | Some j \<Rightarrow> intern_search a pos (Suc j) str))
      else Some None)"
  by pat_completeness auto
termination
proof (relation "measure (\<lambda>(a, pos, i, str). pos - i)")
  show "wf (measure (\<lambda>(a, pos, i, str). pos - i))" by simp
next
  fix a :: "char list" and pos i :: nat and str :: string and x2 :: bool and j :: nat
  assume "i < pos" and "skip_to_nul a i = Some j"
  then have "i \<le> j" using skip_to_nul_ge by blast
  with \<open>i < pos\<close> show "((a, pos, Suc j, str), (a, pos, i, str)) \<in> measure (\<lambda>(a, pos, i, str). pos - i)"
    by simp
qed

text \<open>The two copy loops at the end of \<open>intern\<close>.\<close>

fun intern_write :: "char list \<Rightarrow> nat \<Rightarrow> string \<Rightarrow> char list" where
  "intern_write a pos [] = a[pos := NUL]"
| "intern_write a pos (c # cs) = intern_write (a[pos := c]) (Suc pos) cs"

text \<open>\<open>intern\<close> on the arena and its fill position; \<open>None\<close> is the call of the host's
  \<open>fatal\<close>, which does not return.\<close>

definition intern_in :: "string \<Rightarrow> char list \<Rightarrow> nat \<Rightarrow> (nat \<times> char list \<times> nat) option" where
  "intern_in str a pos =
     (let len = length str in
      if len + 1 > (string_intern_table_size + 2 ^ 32 - pos) mod 2 ^ 32
      then None
      else
        (case intern_search a pos 0 str of
           None \<Rightarrow> None
         | Some (Some i) \<Rightarrow> Some (i, a, pos)
         | Some None \<Rightarrow> Some (pos, intern_write a pos str, pos + len + 1)))"

definition intern :: "string \<Rightarrow> State \<Rightarrow> (nat \<times> State) option" where
  "intern str s =
     (case intern_in str (interns s) (string_intern_pos s) of
        None \<Rightarrow> None
      | Some (p, a, pos) \<Rightarrow> Some (p, s\<lparr>interns := a, string_intern_pos := pos\<rparr>))"

datatype ModeBits = requires_intern | stable_pointer

text \<open>A \<open>const char*\<close> argument that may be stored as it is: its address (as an arena offset)
  and its bytes.\<close>

type_synonym c_str = "nat \<times> string"

definition make_symbol :: "nat \<Rightarrow> c_str \<Rightarrow> ModeBits \<Rightarrow> State \<Rightarrow> (ptr \<times> State) option" where
  "make_symbol n name mode s =
     (case alloc_value n s of
        None \<Rightarrow> None
      | Some (Some v, s1) \<Rightarrow>
          (case mode of
             stable_pointer \<Rightarrow> Some (v, set_obj v (Symbol (fst name)) s1)
           | requires_intern \<Rightarrow>
               (case intern (snd name) s1 of
                  None \<Rightarrow> None
                | Some (p, s2) \<Rightarrow> Some (v, set_obj v (Symbol p) s2)))
      | Some (None, s1) \<Rightarrow> Some (oom_val s1, s1))"

subsection \<open>Data buffers and strings\<close>

text \<open>
  Modelled from the spec: the host's scratch-buffer allocator is a collaborator
  (\<open>make_scratch_buffer\<close>, \<open>scratch_buffers_remaining\<close>); a buffer is a block of
  \<open>SCRATCH_BUFFER_SIZE\<close> bytes, 2048 in the reference build.
\<close>

definition SCRATCH_BUFFER_SIZE :: nat where
  "SCRATCH_BUFFER_SIZE = 2048"

definition make_scratch_buffer :: "State \<Rightarrow> nat \<times> State" where
  "make_scratch_buffer s =
     (scratch_next s,
      s\<lparr>scratch_next := scratch_next s + 1,
        scratch_buffers_remaining := scratch_buffers_remaining s - 1\<rparr>)"

definition make_databuffer :: "nat \<Rightarrow> State \<Rightarrow> (ptr \<times> State) option" where
  "make_databuffer n s =
     (case (if scratch_buffers_remaining s = 0 then map_option snd (run_gc n s) else Some s) of
        None \<Rightarrow> None
      | Some s0 \<Rightarrow>
          (case alloc_value n s0 of
             None \<Rightarrow> None
           | Some (Some v, s1) \<Rightarrow>
               (let b = make_scratch_buffer s1
                in Some (v, set_obj v (DataBuffer (fst b)) (snd b)))
           | Some (None, s1) \<Rightarrow> Some (oom_val s1, s1)))"

text \<open>The scan of \<open>make_string\<close> for the unused tail of the current string buffer: the
  number of NUL bytes from index \<open>i\<close> downwards, index 0 excluded.\<close>

fun trailing_free :: "(nat \<Rightarrow> char) \<Rightarrow> nat \<Rightarrow> nat" where
  "trailing_free d 0 = 0"
| "trailing_free d (Suc i) = (if d (Suc i) = NUL then Suc (trailing_free d i) else 0)"

fun write_string :: "(nat \<Rightarrow> char) \<Rightarrow> nat \<Rightarrow> string \<Rightarrow> (nat \<Rightarrow> char)" where
  "write_string d p [] = d"
| "write_string d p (c # cs) = write_string (d(p := c)) (Suc p) cs"

definition data_of :: "State \<Rightarrow> ptr \<Rightarrow> nat option" where
  "data_of s p = (case obj (value_pool_data s p) of DataBuffer b \<Rightarrow> Some b | _ \<Rightarrow> None)"

definition make_string :: "nat \<Rightarrow> string \<Rightarrow> State \<Rightarrow> (ptr \<times> State) option" where
  "make_string n str s =
     (let len = length str in
      (case (if string_buffer s \<noteq> nil_val s then
               (case data_of s (string_buffer s) of
                  None \<Rightarrow> None
                | Some b \<Rightarrow>
                    (let free = trailing_free (scratch_data s b) (SCRATCH_BUFFER_SIZE - 1)
                     in if free > len + 1 then Some (Some (string_buffer s, b, free), s)
                        else Some (None, s\<lparr>string_buffer := nil_val s\<rparr>)))
             else Some (None, s)) of
         None \<Rightarrow> None
       | Some (Some (existing_buffer, b, free), s0) \<Rightarrow>
           (let offset = (SCRATCH_BUFFER_SIZE - free) + 1;
                s1 = s0\<lparr>scratch_data := (scratch_data s0)(b := write_string (scratch_data s0 b) offset str)\<rparr>
            in (case alloc_value n s1 of
                  None \<Rightarrow> None
                | Some (Some v, s2) \<Rightarrow> Some (v, set_obj v (StringCell existing_buffer offset) s2)
                | Some (None, s2) \<Rightarrow> Some (oom_val s2, s2)))
       | Some (None, s0) \<Rightarrow>
           (case make_databuffer n s0 of
              None \<Rightarrow> None
            | Some (buffer, s1) \<Rightarrow>
                (if buffer = oom_val s1 then Some (oom_val s1, s1)
                 else
                   (case data_of s1 buffer of
                      None \<Rightarrow> None
                    | Some b \<Rightarrow>
                        (let p = c_stack s1;
                             s2 = Protected_ctor p buffer (s1\<lparr>c_stack := p + 1\<rparr>);
                             s3 = s2\<lparr>string_buffer := buffer\<rparr>;
                             s4 = s3\<lparr>scratch_data := (scratch_data s3)(b := write_string (\<lambda>i. NUL) 0 str)\<rparr>
                         in (case alloc_value n s4 of
                               None \<Rightarrow> None
                             | Some (Some v, s5) \<Rightarrow>
                                 Some (v, (Protected_dtor p (set_obj v (StringCell buffer 0) s5))\<lparr>c_stack := p\<rparr>)
                             | Some (None, s5) \<Rightarrow>
                                 Some (oom_val s5, (Protected_dtor p s5)\<lparr>c_stack := p\<rparr>))))))))"

subsection \<open>funcall\<close>

text \<open>
  \<open>funcall\<close>, \<open>eval\<close> and \<open>vm_execute\<close> call each other, and \<open>funcall\<close> calls native
  functions through a function pointer. Each of them is modelled with the others as
  parameters, collected in \<open>Env\<close>: what a native function does (by the pointer stored in
  the function cell), what a nested \<open>eval\<close> and a nested \<open>vm_execute\<close> do, and the
  evaluator's variable lookup, \<open>let\<close> and quasiquote. A theorem that holds for every
  \<open>Env\<close> holds for the program's own functions.
\<close>

record Env =
  cpp_impl :: "nat \<Rightarrow> nat \<Rightarrow> State \<Rightarrow> (ptr \<times> State) option"
  eval_call :: "ptr \<Rightarrow> State \<Rightarrow> State option"
  vm_call :: "ptr \<Rightarrow> int \<Rightarrow> State \<Rightarrow> State option"
  get_var_call :: "ptr \<Rightarrow> State \<Rightarrow> (ptr \<times> State) option"
  eval_let_call :: "ptr \<Rightarrow> State \<Rightarrow> State option"
  eval_quasiquote_call :: "ptr \<Rightarrow> State \<Rightarrow> State option"

fun pop_args :: "nat \<Rightarrow> State \<Rightarrow> State" where
  "pop_args 0 s = s"
| "pop_args (Suc k) s = pop_args k (pop_op s)"

text \<open>\<open>size() - 1\<close> stored into the 16-bit \<open>arguments_break_loc_\<close>.\<close>

definition break_loc_of :: "State \<Rightarrow> nat" where
  "break_loc_of s = (length (operand_stack s) + 65535) mod 65536"

text \<open>The loop of the interpreted-function case over the body's expression list.\<close>

fun funcall_body :: "nat \<Rightarrow> Env \<Rightarrow> ptr \<Rightarrow> nat \<Rightarrow> nat \<Rightarrow> ptr \<Rightarrow> State \<Rightarrow> State option" where
  "funcall_body 0 env fn argc break_loc expression_list s = None"
| "funcall_body (Suc n) env fn argc break_loc expression_list s =
     (if expression_list = nil_val s then Some s
      else
        (case obj (value_pool_data s expression_list) of
           ConsCell a d \<Rightarrow>
             (case eval_call env a
                     ((pop_op s)\<lparr>arguments_break_loc := break_loc, current_fn_argc := argc,
                                this_val := fn\<rparr>) of
                None \<Rightarrow> None
              | Some s1 \<Rightarrow>
                  (case cdr s1 expression_list of
                     None \<Rightarrow> None
                   | Some d1 \<Rightarrow> funcall_body n env fn argc break_loc d1 s1))
         | _ \<Rightarrow> Some s))"

definition integer_value :: "State \<Rightarrow> ptr \<Rightarrow> 32 word option" where
  "integer_value s p = (case obj (value_pool_data s p) of Integer i \<Rightarrow> Some i | _ \<Rightarrow> None)"

text \<open>The switch of \<open>funcall\<close>, before the four saved fields are restored.\<close>

definition funcall_dispatch :: "nat \<Rightarrow> Env \<Rightarrow> ptr \<Rightarrow> nat \<Rightarrow> State \<Rightarrow> State option" where
  "funcall_dispatch n env fn argc s =
     (if type_at s fn = T_function then
        (if length (operand_stack s) < argc then
           (case make_error n invalid_argc fn (pop_args argc s) of
              None \<Rightarrow> None
            | Some (e, s1) \<Rightarrow> Some (push_op e s1))
         else
           (case obj (value_pool_data s fn) of
              Function_cpp impl \<Rightarrow>
                (case cpp_impl env impl argc s of
                   None \<Rightarrow> None
                 | Some (result, s1) \<Rightarrow> Some (push_op result (pop_args argc s1)))
            | Function_lisp code lb \<Rightarrow>
                (let s1 = s\<lparr>lexical_bindings := lb\<rparr>;
                     break_loc = break_loc_of s1;
                     s2 = push_op (nil_val s1) s1
                 in (case funcall_body n env fn argc break_loc code s2 of
                       None \<Rightarrow> None
                     | Some s3 \<Rightarrow>
                         (case get_op0 s3 of
                            None \<Rightarrow> None
                          | Some result \<Rightarrow> Some (push_op result (pop_args argc (pop_op s3))))))
            | Function_bytecode bc lb \<Rightarrow>
                (let s1 = s\<lparr>arguments_break_loc := break_loc_of s, current_fn_argc := argc,
                           this_val := fn, lexical_bindings := lb\<rparr>
                 in (case cdr s1 bc of
                       None \<Rightarrow> None
                     | Some databuffer \<Rightarrow>
                         (case car s1 bc of
                            None \<Rightarrow> None
                          | Some off \<Rightarrow>
                              (case integer_value s1 off of
                                 None \<Rightarrow> None
                               | Some start \<Rightarrow>
                                   (case vm_call env databuffer (sint start) s1 of
                                      None \<Rightarrow> None
                                    | Some s2 \<Rightarrow>
                                        (case get_op0 s2 of
                                           None \<Rightarrow> None
                                         | Some result \<Rightarrow>
                                             Some (push_op result (pop_args argc (pop_op s2)))))))))
            | _ \<Rightarrow> None))
      else
        (case make_error n value_not_callable (nil_val s) s of
           None \<Rightarrow> None
         | Some (e, s1) \<Rightarrow> Some (push_op e s1)))"

definition funcall :: "nat \<Rightarrow> Env \<Rightarrow> ptr \<Rightarrow> nat \<Rightarrow> State \<Rightarrow> State option" where
  "funcall n env fn argc s =
     (let prev_this = this_val s;
          prev_bindings = lexical_bindings s;
          prev_arguments_break_loc = arguments_break_loc s;
          prev_argc = current_fn_argc s
      in (case funcall_dispatch n env fn argc s of
            None \<Rightarrow> None
          | Some s1 \<Rightarrow>
              Some (s1\<lparr>this_val := prev_this, lexical_bindings := prev_bindings,
                      arguments_break_loc := prev_arguments_break_loc,
                      current_fn_argc := prev_argc\<rparr>)))"

subsection \<open>eval\<close>

definition is_boolean_true :: "State \<Rightarrow> ptr \<Rightarrow> bool" where
  "is_boolean_true s v =
     (case obj (value_pool_data s v) of Integer i \<Rightarrow> i \<noteq> 0 | _ \<Rightarrow> v \<noteq> nil_val s)"

datatype SpecialForm = SF_if | SF_lambda | SF_quote | SF_quasiquote | SF_let | SF_macro

text \<open>The chain of \<open>str_cmp\<close> tests on the head symbol of a form, in the source's order.\<close>

fun match_form :: "char list \<Rightarrow> nat \<Rightarrow> (string \<times> SpecialForm) list \<Rightarrow> SpecialForm option option" where
  "match_form a name [] = Some None"
| "match_form a name ((kw, sf) # rest) =
     (case str_cmp_eq a name kw of
        None \<Rightarrow> None
      | Some True \<Rightarrow> Some (Some sf)
      | Some False \<Rightarrow> match_form a name rest)"

definition special_form :: "State \<Rightarrow> ptr \<Rightarrow> SpecialForm option option" where
  "special_form s form =
     (case obj (value_pool_data s form) of
        Symbol name \<Rightarrow>
          match_form (interns s) name
            [(''if'', SF_if), (''lambda'', SF_lambda), ([CHR 0x27], SF_quote),
             ([CHR 0x60], SF_quasiquote), (''let'', SF_let), (''macro'', SF_macro)]
      | _ \<Rightarrow> Some None)"

definition eval_if :: "nat \<Rightarrow> Env \<Rightarrow> ptr \<Rightarrow> State \<Rightarrow> State option" where
  "eval_if n env code s =
     (case obj (value_pool_data s code) of
        ConsCell cond rest \<Rightarrow>
          (let true_branch =
                 (case obj (value_pool_data s rest) of ConsCell t r2 \<Rightarrow> t | _ \<Rightarrow> nil_val s);
               false_branch =
                 (case obj (value_pool_data s rest) of
                    ConsCell t r2 \<Rightarrow>
                      (case obj (value_pool_data s r2) of ConsCell f r3 \<Rightarrow> f | _ \<Rightarrow> nil_val s)
                  | _ \<Rightarrow> nil_val s)
           in (case eval_call env cond s of
                 None \<Rightarrow> None
               | Some s1 \<Rightarrow>
                   (case get_op0 s1 of
                      None \<Rightarrow> None
                    | Some c \<Rightarrow>
                        (case eval_call env (if is_boolean_true s1 c then true_branch else false_branch) s1 of
                           None \<Rightarrow> None
                         | Some s2 \<Rightarrow>
                             (case get_op0 s2 of
                                None \<Rightarrow> None
                              | Some result \<Rightarrow> Some (push_op result (pop_op (pop_op s2))))))))
      | _ \<Rightarrow>
          (case make_error n mismatched_parentheses (nil_val s) s of
             None \<Rightarrow> None
           | Some (e, s1) \<Rightarrow> Some (push_op e s1)))"

definition eval_lambda :: "nat \<Rightarrow> ptr \<Rightarrow> State \<Rightarrow> State option" where
  "eval_lambda n code s =
     (case make_lisp_function n code s of None \<Rightarrow> None | Some (f, s1) \<Rightarrow> Some (push_op f s1))"

definition eval_macro :: "nat \<Rightarrow> ptr \<Rightarrow> State \<Rightarrow> State option" where
  "eval_macro n code s =
     (case car s code of
        None \<Rightarrow> None
      | Some name \<Rightarrow>
          (if type_at s name = T_symbol then
             (case make_cons n code (macros s) s of
                None \<Rightarrow> None
              | Some (m, s1) \<Rightarrow> Some (push_op (nil_val s1) (s1\<lparr>macros := m\<rparr>)))
           else None))"

definition leave :: "State \<Rightarrow> State" where
  "leave s = s\<lparr>interp_entry_count := interp_entry_count s - 1\<rparr>"

text \<open>The tail shared by the special forms that leave their result above the protected
  expression: result, pop, pop, push.\<close>

definition replace_code_by_result :: "State \<Rightarrow> State option" where
  "replace_code_by_result s =
     (case get_op0 s of
        None \<Rightarrow> None
      | Some result \<Rightarrow> Some (leave (push_op result (pop_op (pop_op s)))))"

definition eval_special :: "nat \<Rightarrow> Env \<Rightarrow> SpecialForm \<Rightarrow> ptr \<Rightarrow> ptr \<Rightarrow> State \<Rightarrow> State option" where
  "eval_special n env sf code rest s =
     (case sf of
        SF_if \<Rightarrow> (case eval_if n env rest s of None \<Rightarrow> None | Some s1 \<Rightarrow> replace_code_by_result s1)
      | SF_lambda \<Rightarrow> (case eval_lambda n rest s of None \<Rightarrow> None | Some s1 \<Rightarrow> replace_code_by_result s1)
      | SF_quote \<Rightarrow> Some (leave (push_op rest (pop_op s)))
      | SF_quasiquote \<Rightarrow>
          (case eval_quasiquote_call env rest s of None \<Rightarrow> None | Some s1 \<Rightarrow> replace_code_by_result s1)
      | SF_let \<Rightarrow> (case eval_let_call env rest s of None \<Rightarrow> None | Some s1 \<Rightarrow> replace_code_by_result s1)
      | SF_macro \<Rightarrow> (case eval_macro n rest s of None \<Rightarrow> None | Some s1 \<Rightarrow> Some (leave (pop_op s1))))"

text \<open>The argument loop of the general case: \<open>Inl\<close> is the early return on an argument
  list that is not a list, \<open>Inr\<close> the argument count with the arguments on the stack.\<close>

fun eval_args :: "nat \<Rightarrow> Env \<Rightarrow> ptr \<Rightarrow> nat \<Rightarrow> State \<Rightarrow> (State + nat \<times> State) option" where
  "eval_args 0 env arg_list argc s = None"
| "eval_args (Suc n) env arg_list argc s =
     (if arg_list = nil_val s then Some (Inr (argc, s))
      else
        (case obj (value_pool_data s arg_list) of
           ConsCell a d \<Rightarrow>
             (case eval_call env a s of
                None \<Rightarrow> None
              | Some s1 \<Rightarrow>
                  (case cdr s1 arg_list of
                     None \<Rightarrow> None
                   | Some d1 \<Rightarrow> eval_args n env d1 (argc + 1) s1))
         | _ \<Rightarrow>
             (case make_error n value_not_callable arg_list (pop_op (pop_args argc s)) of
                None \<Rightarrow> None
              | Some (e, s1) \<Rightarrow> Some (Inl (leave (push_op e s1))))))"

definition error_context :: "State \<Rightarrow> ptr \<Rightarrow> ptr option" where
  "error_context s p = (case obj (value_pool_data s p) of Error c ctx \<Rightarrow> Some ctx | _ \<Rightarrow> None)"

text \<open>The end of \<open>eval\<close> after \<open>funcall\<close> has returned: an error result whose context is nil
  gets the evaluated form as its context.\<close>

definition eval_result :: "ptr \<Rightarrow> State \<Rightarrow> State option" where
  "eval_result code s =
     (case get_op0 s of
        None \<Rightarrow> None
      | Some result \<Rightarrow>
          (let s1 = (case obj (value_pool_data s result) of
                       Error c ctx \<Rightarrow>
                         (if ctx = nil_val s then set_obj result (Error c code) s else s)
                     | _ \<Rightarrow> s)
           in Some (leave (push_op result (pop_op (pop_op s1))))))"

definition eval_funcall :: "nat \<Rightarrow> Env \<Rightarrow> ptr \<Rightarrow> ptr \<Rightarrow> ptr \<Rightarrow> State \<Rightarrow> State option" where
  "eval_funcall n env code form rest s =
     (case eval_call env form s of
        None \<Rightarrow> None
      | Some s1 \<Rightarrow>
          (case get_op0 s1 of
             None \<Rightarrow> None
           | Some fn \<Rightarrow>
               (case cdr s1 code of
                  None \<Rightarrow> None
                | Some arg_list \<Rightarrow>
                    (case eval_args n env arg_list 0 (pop_op s1) of
                       None \<Rightarrow> None
                     | Some (Inl s2) \<Rightarrow> Some s2
                     | Some (Inr (argc, s2)) \<Rightarrow>
                         (case funcall n env fn (argc mod 256) s2 of
                            None \<Rightarrow> None
                          | Some s3 \<Rightarrow> eval_result code s3)))))"

definition eval :: "nat \<Rightarrow> Env \<Rightarrow> ptr \<Rightarrow> State \<Rightarrow> State option" where
  "eval n env code s =
     (let s0 = push_op code (s\<lparr>interp_entry_count := interp_entry_count s + 1\<rparr>) in
      (case obj (value_pool_data s0 code) of
         Symbol name \<Rightarrow>
           (case get_var_call env code (pop_op s0) of
              None \<Rightarrow> None
            | Some (v, s1) \<Rightarrow> Some (push_op v s1))
       | ConsCell form rest \<Rightarrow>
           (case special_form s0 form of
              None \<Rightarrow> None
            | Some (Some sf) \<Rightarrow> eval_special n env sf code rest s0
            | Some None \<Rightarrow> eval_funcall n env code form rest s0)
       | _ \<Rightarrow> Some s0))"

subsection \<open>The built-ins gc and range\<close>

definition native_gc :: "nat \<Rightarrow> nat \<Rightarrow> State \<Rightarrow> (ptr \<times> State) option" where
  "native_gc n argc s =
     (case run_gc n s of
        None \<Rightarrow> None
      | Some (c, s1) \<Rightarrow> make_integer n (word_of_nat c) s1)"

text \<open>
  Modelled from the spec: the macro \<open>L_EXPECT_OP\<close> is defined in lisp.hpp, which is not
  among the sources. By the spec's error contract a native function hands an error argument
  on and answers an argument of the wrong type with \<open>invalid_argument_type\<close>. The result is
  \<open>None\<close> when the operand has the expected type, and the value the native function returns
  early otherwise.
\<close>

definition expect_op :: "nat \<Rightarrow> nat \<Rightarrow> Type \<Rightarrow> State \<Rightarrow> (ptr \<times> State) option option" where
  "expect_op n offset ty s =
     (if type_at s (get_op s offset) = ty then None
      else if type_at s (get_op s offset) = T_error then Some (Some (get_op s offset, s))
      else Some (make_error n invalid_argument_type (nil_val s) s))"

text \<open>
  Modelled from the spec: \<open>ListBuilder\<close> is defined in listBuilder.hpp, which is not among
  the sources. It keeps the head of the list in a \<open>Protected\<close> and a pointer to the last
  cell; \<open>push_back\<close> appends a fresh cons.
\<close>

record ListBuilder =
  lb_head :: nat
  lb_tail :: "ptr option"

definition ListBuilder_ctor :: "State \<Rightarrow> ListBuilder \<times> State" where
  "ListBuilder_ctor s =
     (\<lparr>lb_head = c_stack s, lb_tail = None\<rparr>,
      Protected_ctor (c_stack s) (nil_val s) (s\<lparr>c_stack := c_stack s + 1\<rparr>))"

definition ListBuilder_push_back ::
  "nat \<Rightarrow> ptr \<Rightarrow> ListBuilder \<Rightarrow> State \<Rightarrow> (ListBuilder \<times> State) option" where
  "ListBuilder_push_back n v lb s =
     (case make_cons n v (nil_val s) s of
        None \<Rightarrow> None
      | Some (c, s1) \<Rightarrow>
          (if type_at s1 c \<noteq> T_cons then Some (lb, s1)
           else
             (case lb_tail lb of
                None \<Rightarrow> Some (lb\<lparr>lb_tail := Some c\<rparr>, Protected_set (lb_head lb) c s1)
              | Some tail \<Rightarrow>
                  (case set_cdr tail c s1 of
                     None \<Rightarrow> None
                   | Some s2 \<Rightarrow> Some (lb\<lparr>lb_tail := Some c\<rparr>, s2)))))"

definition ListBuilder_result :: "ListBuilder \<Rightarrow> State \<Rightarrow> ptr \<times> State" where
  "ListBuilder_result lb s =
     (p_val (protected_mem s (lb_head lb)),
      (Protected_dtor (lb_head lb) s)\<lparr>c_stack := lb_head lb\<rparr>)"

text \<open>The loop \<open>for (int i = start; i < end; i += incr)\<close> of \<open>range\<close>, on 32-bit signed
  integers.\<close>

fun range_loop ::
  "nat \<Rightarrow> 32 word \<Rightarrow> 32 word \<Rightarrow> 32 word \<Rightarrow> ListBuilder \<Rightarrow> State \<Rightarrow> (ListBuilder \<times> State) option" where
  "range_loop 0 i end_v incr lat s = None"
| "range_loop (Suc n) i end_v incr lat s =
     (if sint i < sint end_v then
        (case make_integer n i s of
           None \<Rightarrow> None
         | Some (v, s1) \<Rightarrow>
             (case ListBuilder_push_back n v lat s1 of
                None \<Rightarrow> None
              | Some (lat1, s2) \<Rightarrow> range_loop n (i + incr) end_v incr lat1 s2))
      else Some (lat, s))"

text \<open>The part of \<open>range\<close> after the arguments are read.\<close>

definition range_build :: "nat \<Rightarrow> 32 word \<Rightarrow> 32 word \<Rightarrow> 32 word \<Rightarrow> State \<Rightarrow> (ptr \<times> State) option" where
  "range_build n start end_v incr s =
     (if incr = 0 then Some (nil_val s, s)
      else
        (let b = ListBuilder_ctor s
         in (case range_loop n start end_v incr (fst b) (snd b) of
               None \<Rightarrow> None
             | Some (lat, s1) \<Rightarrow> Some (ListBuilder_result lat s1))))"

definition native_range :: "nat \<Rightarrow> nat \<Rightarrow> State \<Rightarrow> (ptr \<times> State) option" where
  "native_range n argc s =
     (if argc = 1 then
        (case expect_op n 0 T_integer s of
           Some r \<Rightarrow> r
         | None \<Rightarrow>
             (case get_op0 s of
                None \<Rightarrow> None
              | Some p0 \<Rightarrow>
                  (case integer_value s p0 of
                     None \<Rightarrow> None
                   | Some e \<Rightarrow> range_build n 0 e 1 s)))
      else if argc = 2 then
        (case expect_op n 1 T_integer s of
           Some r \<Rightarrow> r
         | None \<Rightarrow>
             (case expect_op n 0 T_integer s of
                Some r \<Rightarrow> r
              | None \<Rightarrow>
                  (case (get_op1 s, get_op0 s) of
                     (Some p1, Some p0) \<Rightarrow>
                       (case (integer_value s p1, integer_value s p0) of
                          (Some st, Some e) \<Rightarrow> range_build n st e 1 s
                        | _ \<Rightarrow> None)
                   | _ \<Rightarrow> None)))
      else if argc = 3 then
        (case expect_op n 2 T_integer s of
           Some r \<Rightarrow> r
         | None \<Rightarrow>
             (case expect_op n 1 T_integer s of
                Some r \<Rightarrow> r
              | None \<Rightarrow>
                  (case expect_op n 0 T_integer s of
                     Some r \<Rightarrow> r
                   | None \<Rightarrow>
                       (case (get_op1 s, get_op0 s) of
                          (Some p1, Some p0) \<Rightarrow>
                            (case (integer_value s (get_op s 2), integer_value s p1,
                                   integer_value s p0) of
                               (Some st, Some e, Some inc) \<Rightarrow> range_build n st e inc s
                             | _ \<Rightarrow> None)
                        | _ \<Rightarrow> None))))
      else make_error n invalid_argc (nil_val s) s)"

subsection \<open>The bytecode VM (source/script/vm.cpp)\<close>

text \<open>
  Modelled from the spec: the instruction records and their opcodes are defined in
  bytecode.hpp, which is not among the sources. An instruction is modelled decoded, with its
  inline operands; \<open>instr_size\<close> is \<open>sizeof\<close> of its record, the opcode byte and the
  operand widths of the spec's opcode table. The code buffer is a function from a program
  counter to the instruction that starts there.
\<close>

datatype Instr =
    JumpIfFalse nat | Jump nat | SmallJumpIfFalse nat | SmallJump nat
  | LoadVar nat | Dup | Not_i | PushNil | PushInteger "32 word" | Push0 | Push1 | Push2
  | PushSmallInteger nat | PushSymbol nat | PushString nat string
  | TailCall nat | TailCall1 | TailCall2 | TailCall3
  | Funcall nat | Funcall1 | Funcall2 | Funcall3
  | Arg | Arg0 | Arg1 | Arg2 | MakePair | First | Rest | Pop | EarlyRet | Ret
  | PushLambda nat | PushList nat | PushThis | LexicalDef nat
  | LexicalFramePush | LexicalFramePop | Fatal

fun instr_size :: "Instr \<Rightarrow> int" where
  "instr_size (JumpIfFalse off) = 3"
| "instr_size (Jump off) = 3"
| "instr_size (SmallJumpIfFalse off) = 2"
| "instr_size (SmallJump off) = 2"
| "instr_size (LoadVar name) = 3"
| "instr_size (PushInteger v) = 5"
| "instr_size (PushSmallInteger v) = 2"
| "instr_size (PushSymbol name) = 3"
| "instr_size (PushString len str) = 2"
| "instr_size (TailCall argc) = 2"
| "instr_size (Funcall argc) = 2"
| "instr_size (PushLambda lambda_end) = 3"
| "instr_size (PushList element_count) = 2"
| "instr_size (LexicalDef name) = 3"
| "instr_size i = 1"

datatype VmStep = Next int int State | Done State

definition protect :: "ptr \<Rightarrow> State \<Rightarrow> nat \<times> State" where
  "protect v s = (c_stack s, Protected_ctor (c_stack s) v (s\<lparr>c_stack := c_stack s + 1\<rparr>))"

definition unprotect :: "nat \<Rightarrow> State \<Rightarrow> State" where
  "unprotect p s = (Protected_dtor p s)\<lparr>c_stack := p\<rparr>"

definition lexical_frame_push :: "nat \<Rightarrow> State \<Rightarrow> State option" where
  "lexical_frame_push n s =
     (case make_cons n (nil_val s) (lexical_bindings s) s of
        None \<Rightarrow> None
      | Some (c, s1) \<Rightarrow> Some (s1\<lparr>lexical_bindings := c\<rparr>))"

definition lexical_frame_pop :: "State \<Rightarrow> State option" where
  "lexical_frame_pop s =
     (case cdr s (lexical_bindings s) of
        None \<Rightarrow> None
      | Some d \<Rightarrow> Some (s\<lparr>lexical_bindings := d\<rparr>))"

definition lexical_frame_store :: "nat \<Rightarrow> ptr \<Rightarrow> State \<Rightarrow> State option" where
  "lexical_frame_store n kvp s =
     (case car s (lexical_bindings s) of
        None \<Rightarrow> None
      | Some a \<Rightarrow>
          (case make_cons n kvp a s of
             None \<Rightarrow> None
           | Some (c, s1) \<Rightarrow> set_car (lexical_bindings s1) c s1))"

text \<open>\<open>unwind_lexical_scope\<close>: the loop \<open>while (nested_scope)\<close> pops one frame per count and
  does not end on a negative count.\<close>

fun unwind_frames :: "nat \<Rightarrow> State \<Rightarrow> State option" where
  "unwind_frames 0 s = Some s"
| "unwind_frames (Suc k) s =
     (case lexical_frame_pop s of None \<Rightarrow> None | Some s1 \<Rightarrow> unwind_frames k s1)"

definition unwind_lexical_scope :: "int \<Rightarrow> State \<Rightarrow> State option" where
  "unwind_lexical_scope nested_scope s =
     (if nested_scope < 0 then None else unwind_frames (nat nested_scope) s)"

definition get_arg :: "State \<Rightarrow> nat \<Rightarrow> ptr option" where
  "get_arg s k =
     (let br = int (arguments_break_loc s);
          d = (int (current_fn_argc s) - 1) - int k
      in if br \<ge> d then
           (if nat (br - d) < length (operand_stack s) then Some (operand_stack s ! nat (br - d))
            else None)
         else Some (nil_val s))"

fun make_list_loop :: "nat \<Rightarrow> nat \<Rightarrow> ptr \<Rightarrow> State \<Rightarrow> (ptr \<times> State) option" where
  "make_list_loop n 0 head s = Some (head, s)"
| "make_list_loop n (Suc k) head s =
     (case make_cons n (nil_val s) head (push_op head s) of
        None \<Rightarrow> None
      | Some (c, s1) \<Rightarrow> make_list_loop n k c (pop_op s1))"

definition make_list :: "nat \<Rightarrow> nat \<Rightarrow> State \<Rightarrow> (ptr \<times> State) option" where
  "make_list n len s =
     (if len = 0 then Some (nil_val s, s)
      else
        (case make_cons n (nil_val s) (nil_val s) s of
           None \<Rightarrow> None
         | Some (head, s1) \<Rightarrow> make_list_loop n (len - 1) head s1))"

fun set_list :: "ptr \<Rightarrow> nat \<Rightarrow> ptr \<Rightarrow> State \<Rightarrow> State" where
  "set_list lst 0 v s =
     (case obj (value_pool_data s lst) of
        ConsCell a d \<Rightarrow> set_obj lst (ConsCell v d) s
      | _ \<Rightarrow> s)"
| "set_list lst (Suc k) v s =
     (case obj (value_pool_data s lst) of
        ConsCell a d \<Rightarrow> set_list d k v s
      | _ \<Rightarrow> s)"

fun push_list_fill :: "nat \<Rightarrow> nat \<Rightarrow> ptr \<Rightarrow> State \<Rightarrow> State" where
  "push_list_fill list_size 0 lat s = s"
| "push_list_fill list_size (Suc k) lat s =
     (let i = list_size - Suc k
      in push_list_fill list_size k lat (set_list lat i (get_op s ((list_size - 1) - i)) s))"

text \<open>The call instructions. \<open>call_fn\<close> is the shared shape of Funcall, Funcall1..3 and of
  the tail calls that are not optimised: the function is popped and called.\<close>

definition call_fn :: "nat \<Rightarrow> Env \<Rightarrow> nat \<Rightarrow> int \<Rightarrow> int \<Rightarrow> State \<Rightarrow> VmStep option" where
  "call_fn n env argc pc nested_scope s =
     (let fn = get_op s 0; pr = protect fn s
      in (case funcall n env fn argc (pop_op (snd pr)) of
            None \<Rightarrow> None
          | Some s1 \<Rightarrow> Some (Next pc nested_scope (unprotect (fst pr) s1))))"

text \<open>\<open>TailCall\<close> with its operand: a call of the running function restarts it only for
  \<open>argc = 0\<close>; with arguments it is an ordinary \<open>funcall\<close>. A call of the running function
  with another argument count enters the source's \<open>while (true);\<close>.\<close>

definition tail_call :: "nat \<Rightarrow> Env \<Rightarrow> int \<Rightarrow> nat \<Rightarrow> int \<Rightarrow> int \<Rightarrow> State \<Rightarrow> VmStep option" where
  "tail_call n env start_offset argc pc nested_scope s =
     (let fn = get_op s 0; pr = protect fn s
      in if fn = this_val (snd pr) then
           (let s1 = pop_op (snd pr)
            in if current_fn_argc s1 \<noteq> argc then None
               else if argc = 0 then
                 (case unwind_lexical_scope nested_scope s1 of
                    None \<Rightarrow> None
                  | Some s2 \<Rightarrow> Some (Next start_offset 0 (unprotect (fst pr) s2)))
               else
                 (case funcall n env fn argc s1 of
                    None \<Rightarrow> None
                  | Some s2 \<Rightarrow> Some (Next pc nested_scope (unprotect (fst pr) s2))))
         else
           (case funcall n env fn argc (pop_op (snd pr)) of
              None \<Rightarrow> None
            | Some s1 \<Rightarrow> Some (Next pc nested_scope (unprotect (fst pr) s1))))"

text \<open>\<open>TailCall1\<close>, \<open>TailCall2\<close>, \<open>TailCall3\<close> for \<open>k = 1, 2, 3\<close>: the new arguments are read
  from under the function, the function, the new and the previous arguments are popped, and
  the new arguments are pushed in their order.\<close>

definition tail_call_k :: "nat \<Rightarrow> Env \<Rightarrow> int \<Rightarrow> nat \<Rightarrow> int \<Rightarrow> int \<Rightarrow> State \<Rightarrow> VmStep option" where
  "tail_call_k n env start_offset k pc nested_scope s =
     (let fn = get_op s 0; pr = protect fn s; s0 = snd pr
      in if fn = this_val s0 then
           (let args = map (\<lambda>i. get_op s0 (Suc i)) [0..<k]
            in if current_fn_argc s0 \<noteq> k then None
               else
                 (let s1 = pop_args (Suc (2 * k)) s0;
                      s2 = fold push_op (rev args) s1
                  in (case unwind_lexical_scope nested_scope s2 of
                        None \<Rightarrow> None
                      | Some s3 \<Rightarrow> Some (Next start_offset 0 (unprotect (fst pr) s3)))))
         else
           (case funcall n env fn k (pop_op s0) of
              None \<Rightarrow> None
            | Some s1 \<Rightarrow> Some (Next pc nested_scope (unprotect (fst pr) s1))))"

text \<open>One turn of the loop of \<open>vm_execute\<close>: \<open>pc\<close> is the program counter after the
  instruction has been read.\<close>

definition push_result :: "int \<Rightarrow> int \<Rightarrow> (ptr \<times> State) option \<Rightarrow> VmStep option" where
  "push_result pc nested_scope r =
     (case r of None \<Rightarrow> None | Some (v, s) \<Rightarrow> Some (Next pc nested_scope (push_op v s)))"

definition vm_step ::
  "nat \<Rightarrow> Env \<Rightarrow> ptr \<Rightarrow> int \<Rightarrow> Instr \<Rightarrow> int \<Rightarrow> int \<Rightarrow> State \<Rightarrow> VmStep option" where
  "vm_step n env code_buffer start_offset inst pc nested_scope s =
     (case inst of
        JumpIfFalse off \<Rightarrow>
          Some (Next (if \<not> is_boolean_true s (get_op s 0) then start_offset + int off else pc)
                  nested_scope (pop_op s))
      | Jump off \<Rightarrow> Some (Next (start_offset + int off) nested_scope s)
      | SmallJumpIfFalse off \<Rightarrow>
          Some (Next (if \<not> is_boolean_true s (get_op s 0) then start_offset + int off else pc)
                  nested_scope (pop_op s))
      | SmallJump off \<Rightarrow> Some (Next (start_offset + int off) nested_scope s)
      | LoadVar name \<Rightarrow>
          (case make_symbol n (name, []) stable_pointer s of
             None \<Rightarrow> None
           | Some (symb, s1) \<Rightarrow> push_result pc nested_scope (get_var_call env symb s1))
      | Dup \<Rightarrow> Some (Next pc nested_scope (push_op (get_op s 0) s))
      | Not_i \<Rightarrow>
          push_result pc nested_scope
            (make_integer n (if is_boolean_true s (get_op s 0) then 0 else 1) (pop_op s))
      | PushNil \<Rightarrow> Some (Next pc nested_scope (push_op (nil_val s) s))
      | PushInteger v \<Rightarrow> push_result pc nested_scope (make_integer n v s)
      | Push0 \<Rightarrow> push_result pc nested_scope (make_integer n 0 s)
      | Push1 \<Rightarrow> push_result pc nested_scope (make_integer n 1 s)
      | Push2 \<Rightarrow> push_result pc nested_scope (make_integer n 2 s)
      | PushSmallInteger v \<Rightarrow> push_result pc nested_scope (make_integer n (word_of_nat v) s)
      | PushSymbol name \<Rightarrow> push_result pc nested_scope (make_symbol n (name, []) stable_pointer s)
      | PushString len str \<Rightarrow> push_result (pc + int len) nested_scope (make_string n str s)
      | TailCall argc \<Rightarrow> tail_call n env start_offset argc pc nested_scope s
      | TailCall1 \<Rightarrow> tail_call_k n env start_offset 1 pc nested_scope s
      | TailCall2 \<Rightarrow> tail_call_k n env start_offset 2 pc nested_scope s
      | TailCall3 \<Rightarrow> tail_call_k n env start_offset 3 pc nested_scope s
      | Funcall argc \<Rightarrow> call_fn n env argc pc nested_scope s
      | Funcall1 \<Rightarrow> call_fn n env 1 pc nested_scope s
      | Funcall2 \<Rightarrow> call_fn n env 2 pc nested_scope s
      | Funcall3 \<Rightarrow> call_fn n env 3 pc nested_scope s
      | Arg \<Rightarrow>
          (case integer_value s (get_op s 0) of
             None \<Rightarrow> None
           | Some k \<Rightarrow>
               (case get_arg s (unat k mod 65536) of
                  None \<Rightarrow> None
                | Some a \<Rightarrow> Some (Next pc nested_scope (push_op a (pop_op s)))))
      | Arg0 \<Rightarrow> (case get_arg s 0 of None \<Rightarrow> None | Some a \<Rightarrow> Some (Next pc nested_scope (push_op a s)))
      | Arg1 \<Rightarrow> (case get_arg s 1 of None \<Rightarrow> None | Some a \<Rightarrow> Some (Next pc nested_scope (push_op a s)))
      | Arg2 \<Rightarrow> (case get_arg s 2 of None \<Rightarrow> None | Some a \<Rightarrow> Some (Next pc nested_scope (push_op a s)))
      | MakePair \<Rightarrow>
          (case make_cons n (get_op s 1) (get_op s 0) s of
             None \<Rightarrow> None
           | Some (c, s1) \<Rightarrow> Some (Next pc nested_scope (push_op c (pop_op (pop_op s1)))))
      | First \<Rightarrow>
          (case obj (value_pool_data s (get_op s 0)) of
             ConsCell a d \<Rightarrow> Some (Next pc nested_scope (push_op a (pop_op s)))
           | _ \<Rightarrow> push_result pc nested_scope
                    (make_error n invalid_argument_type (nil_val s) (pop_op s)))
      | Rest \<Rightarrow>
          (case obj (value_pool_data s (get_op s 0)) of
             ConsCell a d \<Rightarrow> Some (Next pc nested_scope (push_op d (pop_op s)))
           | _ \<Rightarrow> push_result pc nested_scope
                    (make_error n invalid_argument_type (nil_val s) (pop_op s)))
      | Pop \<Rightarrow> Some (Next pc nested_scope (pop_op s))
      | EarlyRet \<Rightarrow> Some (Done s)
      | Ret \<Rightarrow> Some (Done s)
      | PushLambda lambda_end \<Rightarrow>
          (case make_integer n (word_of_int pc) s of
             None \<Rightarrow> None
           | Some (offset, s1) \<Rightarrow>
               (if type_at s1 offset = T_integer then
                  (case make_cons n offset code_buffer s1 of
                     None \<Rightarrow> None
                   | Some (bytecode, s2) \<Rightarrow>
                       (if type_at s2 bytecode = T_cons then
                          push_result (start_offset + int lambda_end) nested_scope
                            (make_bytecode_function n bytecode s2)
                        else Some (Next (start_offset + int lambda_end) nested_scope
                                     (push_op bytecode s2))))
                else Some (Next (start_offset + int lambda_end) nested_scope (push_op offset s1))))
      | PushList list_size \<Rightarrow>
          (case make_list n list_size s of
             None \<Rightarrow> None
           | Some (lat, s1) \<Rightarrow>
               (let pr = protect lat s1;
                    s2 = push_list_fill list_size list_size lat (snd pr);
                    s3 = pop_args list_size s2
                in Some (Next pc nested_scope (unprotect (fst pr) (push_op lat s3)))))
      | PushThis \<Rightarrow> Some (Next pc nested_scope (push_op (this_val s) s))
      | LexicalDef name \<Rightarrow>
          (case make_symbol n (name, []) stable_pointer s of
             None \<Rightarrow> None
           | Some (symb, s1) \<Rightarrow>
               (let pr = protect symb s1
                in (case make_cons n symb (get_op (snd pr) 0) (snd pr) of
                      None \<Rightarrow> None
                    | Some (pair, s2) \<Rightarrow>
                        (case lexical_frame_store n pair (push_op pair (pop_op s2)) of
                           None \<Rightarrow> None
                         | Some s3 \<Rightarrow> Some (Next pc nested_scope (unprotect (fst pr) (pop_op s3)))))))
      | LexicalFramePush \<Rightarrow>
          (case lexical_frame_push n s of
             None \<Rightarrow> None
           | Some s1 \<Rightarrow> Some (Next pc (nested_scope + 1) s1))
      | LexicalFramePop \<Rightarrow>
          (case lexical_frame_pop s of
             None \<Rightarrow> None
           | Some s1 \<Rightarrow> Some (Next pc (nested_scope - 1) s1))
      | Fatal \<Rightarrow> None)"

text \<open>\<open>vm_execute\<close>: the loop, with a budget of instructions.\<close>

fun vm_loop ::
  "nat \<Rightarrow> nat \<Rightarrow> Env \<Rightarrow> (int \<Rightarrow> Instr) \<Rightarrow> ptr \<Rightarrow> int \<Rightarrow> int \<Rightarrow> int \<Rightarrow> State \<Rightarrow> State option" where
  "vm_loop 0 n env code code_buffer start_offset pc nested_scope s = None"
| "vm_loop (Suc k) n env code code_buffer start_offset pc nested_scope s =
     (case vm_step n env code_buffer start_offset (code pc) (pc + instr_size (code pc))
             nested_scope s of
        None \<Rightarrow> None
      | Some (Done s1) \<Rightarrow> Some s1
      | Some (Next pc1 nested1 s1) \<Rightarrow>
          vm_loop k n env code code_buffer start_offset pc1 nested1 s1)"

definition vm_execute ::
  "nat \<Rightarrow> nat \<Rightarrow> Env \<Rightarrow> (int \<Rightarrow> Instr) \<Rightarrow> ptr \<Rightarrow> int \<Rightarrow> State \<Rightarrow> State option" where
  "vm_execute k n env code code_buffer start_offset s =
     vm_loop k n env code code_buffer start_offset start_offset 0 s"

section \<open>The globals tree, the reader and the printer on values\<close>

text \<open>
  The globals tree, the lexical-binding chain and the structures the reader builds are made of
  cons cells that nothing else refers to, so for them a cell is modelled by its contents: a
  value is a term, a cons a pair of values, and a setter rebuilds the pair. In this part an
  allocation always succeeds. A symbol is the pointer \<open>name_\<close> into the intern arena (an
  offset); functions, user data and data buffers are known by their identity.
\<close>

datatype sexp =
    SNil
  | SInt "32 word"
  | SCons sexp sexp
  | SSym nat
  | SStr string
  | SErr Code sexp
  | SFunction nat
  | SUserData nat
  | SDataBuffer nat

fun stype :: "sexp \<Rightarrow> Type" where
  "stype SNil = T_nil"
| "stype (SInt i) = T_integer"
| "stype (SCons a d) = T_cons"
| "stype (SSym p) = T_symbol"
| "stype (SStr s) = T_string"
| "stype (SErr c x) = T_error"
| "stype (SFunction f) = T_function"
| "stype (SUserData u) = T_user_data"
| "stype (SDataBuffer b) = T_data_buffer"


definition c_string_at :: "char list \<Rightarrow> nat \<Rightarrow> string option" where
  "c_string_at a p =
     (case skip_to_nul a p of None \<Rightarrow> None | Some j \<Rightarrow> Some (take (j - p) (drop p a)))"

subsection \<open>globals_tree_insert, globals_tree_find, globals_tree_erase\<close>








subsection \<open>get_var, set_var and the built-in unbind\<close>












subsection \<open>The printer\<close>

text \<open>
  Modelled from the spec: \<open>to_string\<close> and \<open>StringBuffer\<close> (string.hpp) and the
  \<open>Printer\<close> classes are not among the sources. \<open>to_string\<close> writes a signed integer in
  decimal; a \<open>StringBuffer<N>\<close> is a byte string of at most \<open>N\<close> bytes that drops what does
  not fit; the printer collects the text without a bound. \<open>Error::get_string\<close> is not among
  the sources either and is a parameter of the printer.
\<close>

definition digit_char :: "nat \<Rightarrow> char" where
  "digit_char d = char_of (48 + d)"

function dec_digits :: "nat \<Rightarrow> string" where
  "dec_digits k = (if k < 10 then [digit_char k] else dec_digits (k div 10) @ [digit_char (k mod 10)])"
  by pat_completeness auto
termination
  by (relation "measure (\<lambda>k. k)") auto

declare dec_digits.simps [simp del]

definition to_string :: "int \<Rightarrow> string" where
  "to_string i = (if i < 0 then CHR ''-'' # dec_digits (nat (- i)) else dec_digits (nat i))"

fun format_impl :: "(Code \<Rightarrow> string) \<Rightarrow> char list \<Rightarrow> sexp \<Rightarrow> nat \<Rightarrow> string option"
  and format_rest :: "(Code \<Rightarrow> string) \<Rightarrow> char list \<Rightarrow> sexp \<Rightarrow> nat \<Rightarrow> string option"
where
  "format_impl es a SNil depth = Some (if depth = 0 then [CHR 0x27] @ ''()'' else ''()'')"
| "format_impl es a (SStr s) depth = Some ([CHR 0x22] @ s @ [CHR 0x22])"
| "format_impl es a (SSym p) depth = c_string_at a p"
| "format_impl es a (SInt i) depth = Some (to_string (sint i))"
| "format_impl es a (SCons x d) depth =
     (case format_impl es a x (depth + 1) of
        None \<Rightarrow> None
      | Some fx \<Rightarrow>
          (case (if stype d = T_nil then Some []
                 else if stype d \<noteq> T_cons then
                   (case format_impl es a d (depth + 1) of
                      None \<Rightarrow> None
                    | Some fd \<Rightarrow> Some ('' . '' @ fd))
                 else format_rest es a d (depth + 1)) of
             None \<Rightarrow> None
           | Some tl_text \<Rightarrow>
               Some ((if depth = 0 then [CHR 0x27] else []) @ ''('' @ fx @ tl_text @ '')'')))"
| "format_impl es a (SFunction f) depth = Some ''<lambda>''"
| "format_impl es a (SUserData u) depth = Some ''<ud>''"
| "format_impl es a (SErr code context) depth =
     (case format_impl es a context 0 of
        None \<Rightarrow> None
      | Some fc \<Rightarrow> Some (''[ERR: '' @ es code @ '' : '' @ fc @ '']''))"
| "format_impl es a (SDataBuffer b) depth = Some ''<sbr>''"
| "format_rest es a (SCons x d) depth =
     (case format_impl es a x depth of
        None \<Rightarrow> None
      | Some fx \<Rightarrow>
          (case format_rest es a d depth of
             None \<Rightarrow> None
           | Some r \<Rightarrow> Some ('' '' @ fx @ r)))"
| "format_rest es a SNil depth = Some []"
| "format_rest es a d depth =
     (case format_impl es a d depth of None \<Rightarrow> None | Some fd \<Rightarrow> Some ('' '' @ fd))"


subsection \<open>The reader\<close>



















subsection \<open>eval on values, and the built-in equal\<close>



section \<open>Notions used to state the properties\<close>

subsection \<open>The free list, and programs over the pool\<close>

text \<open>The cells on the free list, by the walk from \<open>value_pool\<close> along \<open>next_\<close> that the
  built-in \<open>interp-stat\<close> does to count them; a pool of \<open>VALUE_POOL_SIZE\<close> cells has no longer
  list without a cycle.\<close>

primrec fl_path :: "(ptr \<Rightarrow> Value) \<Rightarrow> ptr option \<Rightarrow> ptr list \<Rightarrow> bool" where
  "fl_path h p [] = (p = None)"
| "fl_path h p (x # xs) =
     (p = Some x \<and> (case obj (h x) of HeapNode nx \<Rightarrow> fl_path h nx xs | _ \<Rightarrow> False))"

fun free_cells_from :: "nat \<Rightarrow> (ptr \<Rightarrow> Value) \<Rightarrow> ptr option \<Rightarrow> ptr list option" where
  "free_cells_from n h None = Some []"
| "free_cells_from 0 h (Some p) = None"
| "free_cells_from (Suc n) h (Some p) =
     (case obj (h p) of
        HeapNode nx \<Rightarrow> (case free_cells_from n h nx of None \<Rightarrow> None | Some xs \<Rightarrow> Some (p # xs))
      | _ \<Rightarrow> None)"

definition free_cells :: "State \<Rightarrow> ptr list option" where
  "free_cells s = free_cells_from VALUE_POOL_SIZE (value_pool_data s) (value_pool s)"

definition free_count :: "State \<Rightarrow> nat option" where
  "free_count s = map_option length (free_cells s)"

definition live_count :: "State \<Rightarrow> nat" where
  "live_count s = length (filter (\<lambda>i. alive (value_pool_data s i)) [0..<VALUE_POOL_SIZE])"

text \<open>The pool invariant: the free list ends, has no cell twice, and holds exactly the cells
  of the pool that are not alive.\<close>

definition pool_inv :: "State \<Rightarrow> bool" where
  "pool_inv s =
     (case free_cells s of
        None \<Rightarrow> False
      | Some xs \<Rightarrow>
          distinct xs \<and> list_all (\<lambda>x. x < VALUE_POOL_SIZE) xs \<and>
          list_all (\<lambda>i. (i \<in> set xs) = (\<not> alive (value_pool_data s i))) [0..<VALUE_POOL_SIZE])"

definition pinv :: "State \<Rightarrow> ptr list \<Rightarrow> bool" where
  "pinv s xs = (fl_path (value_pool_data s) (value_pool s) xs \<and> distinct xs \<and>
      set xs = {i. i < VALUE_POOL_SIZE \<and> \<not> alive (value_pool_data s i)})"

text \<open>
  A program, as far as the pool sees it: it constructs cells, runs the collector (directly or
  through the built-in \<open>gc\<close>), writes the payload of cells that are alive, and changes the
  roots. A write to a cell that is not alive is outside what the pool functions promise
  anything about, and stops the model.
\<close>

datatype pool_op =
    Op_construct Obj
  | Op_run_gc
  | Op_gc_primitive
  | Op_write ptr Obj
  | Op_push ptr
  | Op_pop
  | Op_set_this ptr
  | Op_set_lexical_bindings ptr
  | Op_set_globals_tree ptr
  | Op_set_macros ptr

fun exec_op :: "nat \<Rightarrow> pool_op \<Rightarrow> State \<Rightarrow> State option" where
  "exec_op n (Op_construct x) s = map_option snd (construct n x s)"
| "exec_op n Op_run_gc s = map_option snd (run_gc n s)"
| "exec_op n Op_gc_primitive s = map_option snd (native_gc n 0 s)"
| "exec_op n (Op_write p x) s =
     (if p < VALUE_POOL_SIZE \<and> alive (value_pool_data s p) then Some (set_obj p x s) else None)"
| "exec_op n (Op_push p) s = Some (push_op p s)"
| "exec_op n Op_pop s = Some (pop_op s)"
| "exec_op n (Op_set_this p) s = Some (s\<lparr>this_val := p\<rparr>)"
| "exec_op n (Op_set_lexical_bindings p) s = Some (s\<lparr>lexical_bindings := p\<rparr>)"
| "exec_op n (Op_set_globals_tree p) s = Some (s\<lparr>globals_tree := p\<rparr>)"
| "exec_op n (Op_set_macros p) s = Some (s\<lparr>macros := p\<rparr>)"

fun exec_ops :: "nat \<Rightarrow> pool_op list \<Rightarrow> State \<Rightarrow> State option" where
  "exec_ops n [] s = Some s"
| "exec_ops n (x # xs) s = (case exec_op n x s of None \<Rightarrow> None | Some s1 \<Rightarrow> exec_ops n xs s1)"

subsection \<open>The state after the first part of init\<close>

text \<open>
  \<open>boot\<close> is the state before \<open>init\<close>: the statics are zero, the host has \<open>host_buffers\<close>
  scratch buffers to give. \<open>init_core\<close> is \<open>init\<close> up to the two nils it pushes onto the
  operand stack; the rest of \<open>init\<close> installs the built-ins with \<open>set_var\<close>. The first two
  cells the pool hands out are its last two, 8999 for nil and 8998 for the OOM sentinel.
\<close>

definition boot :: "nat \<Rightarrow> State" where
  "boot host_buffers =
     \<lparr>value_pool_data = (\<lambda>i. free_cell None), value_pool = None, operand_stack = [],
      arguments_break_loc = 0, current_fn_argc = 0, this_val = 0, nil_val = 0, oom_val = 0,
      string_buffer = 0, globals_tree = 0, lexical_bindings = 0, macros = 0,
      interns = replicate string_intern_table_size NUL, string_intern_pos = 0,
      interp_entry_count = 0, protected_values = None,
      protected_mem = (\<lambda>a. \<lparr>p_prev = None, p_next = None, p_val = 0\<rparr>),
      scratch_buffers_remaining = host_buffers, scratch_data = (\<lambda>b i. NUL), scratch_next = 0,
      c_stack = 0, gc_passes = 0\<rparr>"

definition init_core :: "nat \<Rightarrow> State \<Rightarrow> State option" where
  "init_core n s0 =
     (case alloc_value n (value_pool_init s0) of
        Some (Some nilp, s2) \<Rightarrow>
          (let s3 = (set_obj nilp NilCell s2)
                      \<lparr>nil_val := nilp, globals_tree := nilp, this_val := nilp,
                       lexical_bindings := nilp\<rparr>
           in (case alloc_value n s3 of
                 Some (Some oomp, s4) \<Rightarrow>
                   (let s5 = (set_obj oomp (Error out_of_memory nilp) s4)
                               \<lparr>oom_val := oomp, string_buffer := nilp, macros := nilp\<rparr>
                    in Some (push_op nilp (push_op nilp s5)))
               | _ \<Rightarrow> None))
      | _ \<Rightarrow> None)"

definition initial_pool :: "ptr \<Rightarrow> Value" where
  "initial_pool i =
     (if i = 8999 then \<lparr>alive = True, mark_bit = False, obj = NilCell\<rparr>
      else if i = 8998 then \<lparr>alive = True, mark_bit = False, obj = Error out_of_memory 8999\<rparr>
      else if i = 0 then free_cell None
      else if i < 8998 then free_cell (Some (i - 1))
      else free_cell None)"

definition initial_state :: "nat \<Rightarrow> State" where
  "initial_state host_buffers =
     \<lparr>value_pool_data = initial_pool, value_pool = Some 8997, operand_stack = [8999, 8999],
      arguments_break_loc = 0, current_fn_argc = 0, this_val = 8999, nil_val = 8999,
      oom_val = 8998, string_buffer = 8999, globals_tree = 8999, lexical_bindings = 8999,
      macros = 8999, interns = replicate string_intern_table_size NUL,
      string_intern_pos = 0, interp_entry_count = 0, protected_values = None,
      protected_mem = (\<lambda>a. \<lparr>p_prev = None, p_next = None, p_val = 0\<rparr>),
      scratch_buffers_remaining = host_buffers, scratch_data = (\<lambda>b i. NUL), scratch_next = 0,
      c_stack = 0, gc_passes = 0\<rparr>"

text \<open>The initial state with the two live cells marked, as the mark phase leaves it.\<close>

definition marked_initial_pool :: "ptr \<Rightarrow> Value" where
  "marked_initial_pool i =
     (if i = 8999 then \<lparr>alive = True, mark_bit = True, obj = NilCell\<rparr>
      else if i = 8998 then \<lparr>alive = True, mark_bit = True, obj = Error out_of_memory 8999\<rparr>
      else initial_pool i)"



subsection \<open>What the collector leaves unchanged\<close>

text \<open>\<open>marks_only\<close>: two pools differ at most in mark bits that were set. \<open>tree_frame\<close>: they
  agree on which cells are alive, and a payload differs only between two conses (the threads
  of the tree traversal), and no mark bit is cleared. \<open>gc_frame\<close>: two states differ only in such a pool. \<open>same_ctx\<close>:
  two states agree on every field that is neither the pool, the free-list head, the string
  buffer, the host's buffer count nor the pass counter.\<close>

definition marks_only :: "(ptr \<Rightarrow> Value) \<Rightarrow> (ptr \<Rightarrow> Value) \<Rightarrow> bool" where
  "marks_only h h' =
     (\<forall>p. alive (h' p) = alive (h p) \<and> obj (h' p) = obj (h p) \<and> (mark_bit (h p) \<longrightarrow> mark_bit (h' p)))"

definition tree_frame :: "(ptr \<Rightarrow> Value) \<Rightarrow> (ptr \<Rightarrow> Value) \<Rightarrow> bool" where
  "tree_frame h h' =
     (\<forall>p. alive (h' p) = alive (h p) \<and> (mark_bit (h p) \<longrightarrow> mark_bit (h' p)) \<and>
          (obj (h' p) = obj (h p) \<or>
           (type_of_obj (obj (h p)) = T_cons \<and> type_of_obj (obj (h' p)) = T_cons)))"

definition gc_frame :: "State \<Rightarrow> State \<Rightarrow> bool" where
  "gc_frame s s' =
     (s' = s\<lparr>value_pool_data := value_pool_data s'\<rparr> \<and>
      tree_frame (value_pool_data s) (value_pool_data s'))"

definition same_ctx :: "State \<Rightarrow> State \<Rightarrow> bool" where
  "same_ctx s s' =
     (operand_stack s' = operand_stack s \<and> arguments_break_loc s' = arguments_break_loc s \<and>
      current_fn_argc s' = current_fn_argc s \<and> this_val s' = this_val s \<and>
      nil_val s' = nil_val s \<and> oom_val s' = oom_val s \<and> globals_tree s' = globals_tree s \<and>
      lexical_bindings s' = lexical_bindings s \<and> macros s' = macros s \<and>
      interns s' = interns s \<and> string_intern_pos s' = string_intern_pos s \<and>
      interp_entry_count s' = interp_entry_count s \<and>
      protected_values s' = protected_values s \<and> protected_mem s' = protected_mem s \<and>
      scratch_data s' = scratch_data s \<and> scratch_next s' = scratch_next s \<and>
      c_stack s' = c_stack s)"



subsection \<open>Example states\<close>

text \<open>A live, unmarked cell with the given payload.\<close>

definition live :: "Obj \<Rightarrow> Value" where
  "live x = \<lparr>alive = True, mark_bit = False, obj = x\<rparr>"

text \<open>The state in which the built-in \<open>range\<close> runs for \<open>(range 1 10 0)\<close>: the three
  integers are on the operand stack.\<close>

definition range_state :: State where
  "range_state =
     (initial_state 0)
       \<lparr>value_pool_data :=
          initial_pool(8997 := live (Integer 1), 8996 := live (Integer 10), 8995 := live (Integer 0)),
        value_pool := Some 8994,
        operand_stack := [8999, 8999, 8997, 8996, 8995]\<rparr>"

text \<open>An environment for forms whose subforms are constants: a nested \<open>eval\<close> of a value
  that is neither a symbol nor a cons pushes it and leaves \<open>interp_entry_count_\<close> one up,
  as \<open>eval\<close> itself does; native and bytecode functions return nil, the latter by pushing
  it.\<close>

definition const_env :: Env where
  "const_env =
     \<lparr>cpp_impl = (\<lambda>impl argc s. Some (nil_val s, s)),
      eval_call = (\<lambda>code s. Some (push_op code (s\<lparr>interp_entry_count := interp_entry_count s + 1\<rparr>))),
      vm_call = (\<lambda>code start s. Some (push_op (nil_val s) s)),
      get_var_call = (\<lambda>symb s. Some (nil_val s, s)),
      eval_let_call = (\<lambda>code s. Some (push_op (nil_val s) s)),
      eval_quasiquote_call = (\<lambda>code s. Some (push_op code s))\<rparr>"

text \<open>The state in which \<open>eval\<close> runs for the form \<open>(5)\<close>: cell 8997 is the integer, cell
  8996 the list.\<close>

definition call_state :: State where
  "call_state =
     (initial_state 0)
       \<lparr>value_pool_data :=
          initial_pool(8997 := live (Integer 5), 8996 := live (ConsCell 8997 8999)),
        value_pool := Some 8995\<rparr>"

text \<open>A state with an interpreted function of no arguments and an empty body in cell 8997,
  closed over the lexical bindings 8998.\<close>

definition fn_state :: State where
  "fn_state =
     (initial_state 0)
       \<lparr>value_pool_data := initial_pool(8997 := live (Function_lisp 8999 8998)),
        value_pool := Some 8996,
        operand_stack := [8999, 8999, 8997]\<rparr>"

text \<open>
  A state in which the bytecode function in cell 8997 runs with one argument (cell 8993) and
  is about to call itself with the argument in cell 8992: the stack holds the previous
  argument, the new argument and the function. Cell 8996 is the function's pair of start
  offset (cell 8995) and code buffer (cell 8994).
\<close>

definition vm_state :: State where
  "vm_state =
     (initial_state 0)
       \<lparr>value_pool_data :=
          initial_pool(8997 := live (Function_bytecode 8996 8999),
                       8996 := live (ConsCell 8995 8994),
                       8995 := live (Integer 0),
                       8994 := live (DataBuffer 0),
                       8993 := live (Integer 7),
                       8992 := live (Integer 8)),
        value_pool := Some 8991,
        operand_stack := [8999, 8999, 8993, 8992, 8997],
        arguments_break_loc := 2,
        current_fn_argc := 1,
        this_val := 8997\<rparr>"

subsection \<open>The layout of the intern arena\<close>




subsection \<open>The bindings of a globals tree\<close>





subsection \<open>The OOM sentinel\<close>




lemma fl_path_unique: "fl_path h p xs \<Longrightarrow> fl_path h p ys \<Longrightarrow> xs = ys"
proof (induction xs arbitrary: p ys)
  case Nil
  then show ?case by (cases ys) auto
next
  case (Cons x xs)
  then show ?case by (cases ys) (auto split: Obj.splits)
qed

lemma free_cells_from_path: "free_cells_from n h p = Some xs \<Longrightarrow> fl_path h p xs"
proof (induction n h p arbitrary: xs rule: free_cells_from.induct)
  case (1 n h)
  then show ?case by simp
next
  case (2 h p)
  then show ?case by simp
next
  case (3 n h p)
  then show ?case by (auto split: Obj.splits option.splits)
qed

lemma fl_path_free_cells: "fl_path h p xs \<Longrightarrow> length xs \<le> n \<Longrightarrow> free_cells_from n h p = Some xs"
proof (induction xs arbitrary: p n)
  case Nil
  then show ?case by simp
next
  case (Cons x xs)
  then obtain m where m: "n = Suc m" by (cases n) auto
  from Cons show ?case unfolding m by (auto split: Obj.splits)
qed

lemma fl_path_frame:
  "fl_path h p xs \<Longrightarrow> (\<And>x. x \<in> set xs \<Longrightarrow> obj (h' x) = obj (h x)) \<Longrightarrow> fl_path h' p xs"
proof (induction xs arbitrary: p)
  case Nil
  then show ?case by simp
next
  case (Cons x xs)
  then show ?case by (auto split: Obj.splits)
qed

lemma init_loop_pool:
  "value_pool (value_pool_init_loop i k s) = (if k = 0 then value_pool s else Some (i + k - 1))"
  by (induction i k s rule: value_pool_init_loop.induct) auto

lemma init_loop_cell_below:
  "j < i \<Longrightarrow> value_pool_data (value_pool_init_loop i k s) j = value_pool_data s j"
  by (induction i k s rule: value_pool_init_loop.induct) auto

lemma init_loop_cell_above:
  "i + k \<le> j \<Longrightarrow> value_pool_data (value_pool_init_loop i k s) j = value_pool_data s j"
  by (induction i k s rule: value_pool_init_loop.induct) auto

lemma init_loop_cell_in:
  "i \<le> j \<Longrightarrow> j < i + k \<Longrightarrow>
   value_pool_data (value_pool_init_loop i k s) j =
     free_cell (if j = i then value_pool s else Some (j - 1))"
proof (induction i k s rule: value_pool_init_loop.induct)
  case (1 i s)
  then show ?case by simp
next
  case (2 i k s)
  show ?case
  proof (cases "j = i")
    case True
    then show ?thesis by (simp add: init_loop_cell_below)
  next
    case False
    with 2 show ?thesis by auto
  qed
qed

lemma init_cell:
  "j < VALUE_POOL_SIZE \<Longrightarrow>
   value_pool_data (value_pool_init s) j = free_cell (if j = 0 then value_pool s else Some (j - 1))"
  unfolding value_pool_init_def by (simp add: init_loop_cell_in)

lemma down_path:
  "(\<And>j. j \<le> k \<Longrightarrow> obj (h j) = HeapNode (if j = 0 then None else Some (j - 1))) \<Longrightarrow>
   fl_path h (Some k) (rev [0..<Suc k])"
proof (induction k)
  case 0
  then show ?case by simp
next
  case (Suc k)
  have "obj (h (Suc k)) = HeapNode (Some k)" using Suc.prems[of "Suc k"] by simp
  moreover have "fl_path h (Some k) (rev [0..<Suc k])" using Suc by simp
  ultimately show ?case by simp
qed

lemma distinct_bounded_length:
  "distinct xs \<Longrightarrow> set xs \<subseteq> {i. i < (n::nat)} \<Longrightarrow> length xs \<le> n"
proof -
  assume d: "distinct xs" and s: "set xs \<subseteq> {i. i < n}"
  have "card (set xs) \<le> card {i. i < n}" by (rule card_mono) (use s in auto)
  then show ?thesis using d by (simp add: distinct_card)
qed

lemma pinv_free_cells: "pinv s xs \<Longrightarrow> free_cells s = Some xs"
  unfolding pinv_def free_cells_def
  by (rule fl_path_free_cells) (auto intro!: distinct_bounded_length)

lemma pool_inv_iff: "pool_inv s = (\<exists>xs. pinv s xs)"
proof
  assume "pool_inv s"
  then obtain xs where fc: "free_cells s = Some xs" and d: "distinct xs"
    and b: "list_all (\<lambda>x. x < VALUE_POOL_SIZE) xs"
    and a: "list_all (\<lambda>i. (i \<in> set xs) = (\<not> alive (value_pool_data s i))) [0..<VALUE_POOL_SIZE]"
    unfolding pool_inv_def by (auto split: option.splits)
  have "fl_path (value_pool_data s) (value_pool s) xs"
    using fc unfolding free_cells_def by (rule free_cells_from_path)
  moreover have "set xs = {i. i < VALUE_POOL_SIZE \<and> \<not> alive (value_pool_data s i)}"
    using a b by (auto simp: list_all_iff)
  ultimately show "\<exists>xs. pinv s xs" using d unfolding pinv_def by blast
next
  assume "\<exists>xs. pinv s xs"
  then obtain xs where p: "pinv s xs" by blast
  then have "free_cells s = Some xs" by (rule pinv_free_cells)
  then show "pool_inv s" using p unfolding pool_inv_def pinv_def
    by (auto simp: list_all_iff)
qed

lemma count_split:
  "distinct xs \<Longrightarrow> set xs = {i. i < n \<and> \<not> P i} \<Longrightarrow>
   length xs + length (filter P [0..<n]) = (n::nat)"
proof -
  assume d: "distinct xs" and s: "set xs = {i. i < n \<and> \<not> P i}"
  have "length xs = card {i. i < n \<and> \<not> P i}" using d s by (metis distinct_card)
  also have "{i. i < n \<and> \<not> P i} = set (filter (\<lambda>i. \<not> P i) [0..<n])" by auto
  also have "card \<dots> = length (filter (\<lambda>i. \<not> P i) [0..<n])"
    by (rule distinct_card) simp
  finally have "length xs = length (filter (\<lambda>i. \<not> P i) [0..<n])" .
  moreover have "length (filter P [0..<n]) + length (filter (\<lambda>i. \<not> P i) [0..<n]) = length [0..<n]"
    by (rule sum_length_filter_compl)
  ultimately show ?thesis by simp
qed

lemma pinv_count: "pinv s xs \<Longrightarrow> length xs + live_count s = VALUE_POOL_SIZE"
  unfolding pinv_def live_count_def by (auto intro: count_split)

lemma pinv_init:
  assumes "value_pool s = None"
  shows "pinv (value_pool_init s) (rev [0..<VALUE_POOL_SIZE])"
proof -
  let ?s = "value_pool_init s"
  have N: "VALUE_POOL_SIZE = Suc (VALUE_POOL_SIZE - 1)" by (simp add: VALUE_POOL_SIZE_def)
  have c: "\<And>j. j < VALUE_POOL_SIZE \<Longrightarrow>
      value_pool_data ?s j = free_cell (if j = 0 then None else Some (j - 1))"
    by (simp add: init_cell assms)
  have vp: "value_pool ?s = Some (VALUE_POOL_SIZE - 1)"
    unfolding value_pool_init_def by (simp add: init_loop_pool VALUE_POOL_SIZE_def)
  have "fl_path (value_pool_data ?s) (Some (VALUE_POOL_SIZE - 1)) (rev [0..<Suc (VALUE_POOL_SIZE - 1)])"
    by (rule down_path) (use c N in \<open>simp add: free_cell_def\<close>)
  then have "fl_path (value_pool_data ?s) (value_pool ?s) (rev [0..<VALUE_POOL_SIZE])"
    using vp N by simp
  moreover have "set (rev [0..<VALUE_POOL_SIZE]) = {i. i < VALUE_POOL_SIZE \<and> \<not> alive (value_pool_data ?s i)}"
    using c by (auto simp: free_cell_def)
  ultimately show ?thesis unfolding pinv_def by simp
qed

lemma marks_only_refl: "marks_only h h"
  by (simp add: marks_only_def)

lemma marks_only_trans: "marks_only h h1 \<Longrightarrow> marks_only h1 h2 \<Longrightarrow> marks_only h h2"
  by (simp add: marks_only_def)

lemma marks_only_set_mark: "marks_only h (set_mark v h)"
  by (simp add: marks_only_def set_mark_def)

lemma marks_only_set_mark': "marks_only h h1 \<Longrightarrow> marks_only h (set_mark v h1)"
  by (simp add: marks_only_def set_mark_def)

lemma gc_mark_value_marks_only:
  "(gc_mark_value n v h = Some h' \<longrightarrow> marks_only h h') \<and>
   (gc_mark_cdr_chain n c h = Some (c', h'') \<longrightarrow> marks_only h h'')"
proof (induction n arbitrary: v h h' c c' h'')
  case 0
  show ?case by simp
next
  case (Suc n)
  have IH1: "\<And>v h h'. gc_mark_value n v h = Some h' \<Longrightarrow> marks_only h h'"
    using Suc by blast
  have IH2: "\<And>c h c' h'. gc_mark_cdr_chain n c h = Some (c', h') \<Longrightarrow> marks_only h h'"
    using Suc by blast
  have A: "gc_mark_value (Suc n) v h = Some h' \<longrightarrow> marks_only h h'"
  proof
    assume a: "gc_mark_value (Suc n) v h = Some h'"
    show "marks_only h h'"
    proof (cases "mark_bit (h v)")
      case True
      with a show ?thesis by (simp add: marks_only_refl)
    next
      case False
      note nm = this
      show ?thesis
      proof (cases "obj (h v)")
        case (Function_lisp code lb)
        with a nm obtain h1 h2 where "gc_mark_value n code h = Some h1"
          "gc_mark_value n lb h1 = Some h2" "h' = set_mark v h2"
          by (auto split: option.splits)
        then show ?thesis
          by (metis IH1 marks_only_trans marks_only_set_mark')
      next
        case (Function_bytecode bc lb)
        with a nm obtain h1 h2 where "gc_mark_value n bc h = Some h1"
          "gc_mark_value n lb h1 = Some h2" "h' = set_mark v h2"
          by (auto split: option.splits)
        then show ?thesis
          by (metis IH1 marks_only_trans marks_only_set_mark')
      next
        case (StringCell db off)
        with a nm obtain h1 where "gc_mark_value n db h = Some h1" "h' = set_mark v h1"
          by (auto split: option.splits)
        then show ?thesis by (metis IH1 marks_only_set_mark')
      next
        case (Error cd ctx)
        with a nm obtain h1 where "gc_mark_value n ctx h = Some h1" "h' = set_mark v h1"
          by (auto split: option.splits)
        then show ?thesis by (metis IH1 marks_only_set_mark')
      next
        case (ConsCell a d)
        show ?thesis
        proof (cases "is_cons h d")
          case True
          with a nm ConsCell obtain cur h1 a1 d1 h2 h3 where
            "gc_mark_cdr_chain n v h = Some (cur, h1)" "obj (h1 cur) = ConsCell a1 d1"
            "gc_mark_value n a1 h1 = Some h2" "gc_mark_value n d1 h2 = Some h3"
            "h' = set_mark v h3"
            by (auto split: option.splits Obj.splits)
          then show ?thesis
            by (metis IH1 IH2 marks_only_trans marks_only_set_mark')
        next
          case False
          with a nm ConsCell obtain h1 h2 where "gc_mark_value n a h = Some h1"
            "gc_mark_value n d h1 = Some h2" "h' = set_mark v h2"
            by (auto split: option.splits)
          then show ?thesis
            by (metis IH1 marks_only_trans marks_only_set_mark')
        qed
      qed (use a nm in \<open>auto simp: marks_only_set_mark\<close>)
    qed
  qed
  have B: "gc_mark_cdr_chain (Suc n) c h = Some (c', h'') \<longrightarrow> marks_only h h''"
  proof
    assume a: "gc_mark_cdr_chain (Suc n) c h = Some (c', h'')"
    then obtain a0 d0 where o: "obj (h c) = ConsCell a0 d0"
      by (auto split: Obj.splits)
    show "marks_only h h''"
    proof (cases "is_cons h d0")
      case True
      with a o obtain h1 a1 d1 where "gc_mark_value n a0 h = Some h1"
        "obj (h1 c) = ConsCell a1 d1"
        "gc_mark_cdr_chain n d1 (set_mark d1 h1) = Some (c', h'')"
        by (auto split: option.splits Obj.splits)
      then show ?thesis
        by (metis IH1 IH2 marks_only_trans marks_only_set_mark')
    next
      case False
      with a o show ?thesis by (simp add: marks_only_refl)
    qed
  qed
  from A B show ?case by blast
qed

lemma tree_frame_refl: "tree_frame h h"
  by (simp add: tree_frame_def)

lemma tree_frame_trans: "tree_frame h h1 \<Longrightarrow> tree_frame h1 h2 \<Longrightarrow> tree_frame h h2"
  unfolding tree_frame_def by metis

lemma marks_only_tree_frame: "marks_only h h' \<Longrightarrow> tree_frame h h'"
  by (simp add: marks_only_def tree_frame_def)

lemma gc_frame_refl: "gc_frame s s"
  by (simp add: gc_frame_def tree_frame_refl)

lemma gc_frame_trans: "gc_frame s s1 \<Longrightarrow> gc_frame s1 s2 \<Longrightarrow> gc_frame s s2"
proof -
  assume a: "gc_frame s s1" and b: "gc_frame s1 s2"
  have "s1 = s\<lparr>value_pool_data := value_pool_data s1\<rparr>" using a by (simp add: gc_frame_def)
  moreover have "s2 = s1\<lparr>value_pool_data := value_pool_data s2\<rparr>" using b by (simp add: gc_frame_def)
  ultimately have "s2 = s\<lparr>value_pool_data := value_pool_data s2\<rparr>"
    by (metis State.surjective State.update_convs(1))
  moreover have "tree_frame (value_pool_data s) (value_pool_data s2)"
    using a b by (auto simp: gc_frame_def intro: tree_frame_trans)
  ultimately show ?thesis by (simp add: gc_frame_def)
qed

lemmas gc_frame_trans_rule [trans] = gc_frame_trans

lemma gc_frame_heap:
  "tree_frame (value_pool_data s) h \<Longrightarrow> gc_frame s (s\<lparr>value_pool_data := h\<rparr>)"
  by (simp add: gc_frame_def)

lemma mark_value_frame: "mark_value n v s = Some s' \<Longrightarrow> gc_frame s s'"
  unfolding mark_value_def
  by (auto split: option.splits intro!: gc_frame_heap marks_only_tree_frame
      simp: gc_mark_value_marks_only)

lemma set_cdr_frame: "set_cdr p v s = Some s' \<Longrightarrow> gc_frame s s'"
  unfolding set_cdr_def set_obj_def
  by (auto split: Obj.splits intro!: gc_frame_heap simp: tree_frame_def)

lemma set_right_subtree_frame: "set_right_subtree t v s = Some s' \<Longrightarrow> gc_frame s s'"
  unfolding set_right_subtree_def by (auto split: option.splits dest: set_cdr_frame)

lemma traverse_loop_frame:
  assumes cb: "\<And>kvp node s s1. callback kvp node s = Some s1 \<Longrightarrow> gc_frame s s1"
  shows "globals_tree_traverse_loop n callback current s = Some s' \<Longrightarrow> gc_frame s s'"
proof (induction n arbitrary: current s)
  case 0
  then show ?case by simp
next
  case (Suc n)
  note run = Suc.prems
  show ?case
  proof (cases "current = nil_val s")
    case True
    with run show ?thesis by (simp add: gc_frame_refl)
  next
    case False
    note nn = this
    from run nn obtain l where l: "left_subtree s current = Some l"
      by (auto split: option.splits)
    show ?thesis
    proof (cases "l = nil_val s")
      case True
      with run nn l obtain kvp s1 r where
        "callback kvp current s = Some s1"
        "globals_tree_traverse_loop n callback r s1 = Some s'"
        by (auto split: option.splits)
      then show ?thesis using cb Suc.IH gc_frame_trans by blast
    next
      case False
      with run nn l obtain prev pr where
        pv: "traverse_rightmost n s current l = Some prev" and
        pr: "right_subtree s prev = Some pr"
        by (auto split: option.splits)
      show ?thesis
      proof (cases "pr = nil_val s")
        case True
        with run nn l False pv pr obtain s1 l1 where
          "set_right_subtree prev current s = Some s1"
          "globals_tree_traverse_loop n callback l1 s1 = Some s'"
          by (auto split: option.splits)
        then show ?thesis using set_right_subtree_frame Suc.IH gc_frame_trans by blast
      next
        case F2: False
        with run nn l False pv pr obtain s1 kvp s2 r where
          "set_right_subtree prev (nil_val s) s = Some s1"
          "callback kvp current s1 = Some s2"
          "globals_tree_traverse_loop n callback r s2 = Some s'"
          by (auto split: option.splits)
        then have "gc_frame s s1" "gc_frame s1 s2" "gc_frame s2 s'"
          using set_right_subtree_frame cb Suc.IH by blast+
        then show ?thesis using gc_frame_trans by blast
      qed
    qed
  qed
qed

lemma traverse_frame:
  assumes cb: "\<And>kvp node s s1. callback kvp node s = Some s1 \<Longrightarrow> gc_frame s s1"
  shows "globals_tree_traverse n root callback s = Some s' \<Longrightarrow> gc_frame s s'"
  unfolding globals_tree_traverse_def
  using traverse_loop_frame[of callback, OF cb]
  by (auto simp: gc_frame_refl split: if_splits)

lemma mark_tree_node_frame: "mark_tree_node n kvp node s = Some s' \<Longrightarrow> gc_frame s s'"
proof -
  assume a: "mark_tree_node n kvp node s = Some s'"
  then obtain d where d: "cdr s node = Some d"
    and m: "mark_value n kvp (s\<lparr>value_pool_data := set_mark d (set_mark node (value_pool_data s))\<rparr>) = Some s'"
    unfolding mark_tree_node_def by (auto split: option.splits)
  have "gc_frame s (s\<lparr>value_pool_data := set_mark d (set_mark node (value_pool_data s))\<rparr>)"
    by (rule gc_frame_heap) (simp add: tree_frame_def set_mark_def)
  with m show ?thesis using mark_value_frame gc_frame_trans by blast
qed

lemma traverse_mark_frame:
  assumes "globals_tree_traverse n root (mark_tree_node m) s = Some s'"
  shows "gc_frame s s'"
proof (rule traverse_frame)
  show "globals_tree_traverse n root (mark_tree_node m) s = Some s'" by (rule assms)
next
  fix kvp node s s1
  assume "mark_tree_node m kvp node s = Some s1"
  then show "gc_frame s s1" by (rule mark_tree_node_frame)
qed

lemma mark_stack_frame: "mark_stack n xs s = Some s' \<Longrightarrow> gc_frame s s'"
proof (induction xs arbitrary: s)
  case Nil
  then show ?case by (simp add: gc_frame_refl)
next
  case (Cons x xs)
  then show ?case
    by (auto split: option.splits dest!: mark_value_frame intro: gc_frame_trans)
qed

lemma mark_protected_frame: "mark_protected n p s = Some s' \<Longrightarrow> gc_frame s s'"
proof (induction n p s rule: mark_protected.induct)
  case (1 p_list s)
  then show ?case by simp
next
  case (2 n s)
  then show ?case by (simp add: gc_frame_refl)
next
  case (3 n p s)
  then show ?case
    by (auto split: option.splits dest!: mark_value_frame intro: gc_frame_trans)
qed

lemma gc_mark_frame: "gc_mark n s = Some s' \<Longrightarrow> gc_frame s s'"
proof -
  assume "gc_mark n s = Some s'"
  then obtain s1 s2 s3 s4 s5 s6 s7 where
    "mark_value n (nil_val s) s = Some s1"
    "mark_value n (oom_val s1) s1 = Some s2"
    "mark_value n (lexical_bindings s2) s2 = Some s3"
    "mark_value n (macros s3) s3 = Some s4"
    "mark_stack n (operand_stack s4) s4 = Some s5"
    "globals_tree_traverse n (globals_tree s5) (mark_tree_node n) s5 = Some s6"
    "mark_value n (this_val s6) s6 = Some s7"
    "mark_protected n (protected_values s7) s7 = Some s'"
    unfolding gc_mark_def by (auto split: option.splits)
  note st = this
  have "gc_frame s s1" using st(1) by (rule mark_value_frame)
  also have "gc_frame s1 s2" using st(2) by (rule mark_value_frame)
  also have "gc_frame s2 s3" using st(3) by (rule mark_value_frame)
  also have "gc_frame s3 s4" using st(4) by (rule mark_value_frame)
  also have "gc_frame s4 s5" using st(5) by (rule mark_stack_frame)
  also have "gc_frame s5 s6"
    using st(6) by (rule traverse_mark_frame)
  also have "gc_frame s6 s7" using st(7) by (rule mark_value_frame)
  also have "gc_frame s7 s'" using st(8) by (rule mark_protected_frame)
  finally show ?thesis .
qed

lemma fl_path_heap_node:
  "fl_path h p xs \<Longrightarrow> x \<in> set xs \<Longrightarrow> \<exists>n. obj (h x) = HeapNode n"
proof (induction xs arbitrary: p)
  case Nil
  then show ?case by simp
next
  case (Cons y ys)
  then show ?case by (auto split: Obj.splits)
qed

lemma pinv_gc_frame: "pinv s xs \<Longrightarrow> gc_frame s s' \<Longrightarrow> pinv s' xs"
proof -
  assume p: "pinv s xs" and f: "gc_frame s s'"
  have vp: "value_pool s' = value_pool s"
    using f unfolding gc_frame_def by (metis State.select_convs(2) State.surjective State.update_convs(1))
  have tf: "tree_frame (value_pool_data s) (value_pool_data s')" using f by (simp add: gc_frame_def)
  have "fl_path (value_pool_data s') (value_pool s) xs"
  proof (rule fl_path_frame)
    show "fl_path (value_pool_data s) (value_pool s) xs" using p by (simp add: pinv_def)
  next
    fix x assume "x \<in> set xs"
    then obtain n where "obj (value_pool_data s x) = HeapNode n"
      using p fl_path_heap_node unfolding pinv_def by blast
    then show "obj (value_pool_data s' x) = obj (value_pool_data s x)"
      using tf unfolding tree_frame_def by (metis Type.distinct(5) type_of_obj.simps(1))
  qed
  moreover have "\<And>i. alive (value_pool_data s' i) = alive (value_pool_data s i)"
    using tf by (simp add: tree_frame_def)
  ultimately show ?thesis using p vp by (simp add: pinv_def)
qed

lemma same_ctx_refl: "same_ctx s s"
  by (simp add: same_ctx_def)

lemma same_ctx_trans: "same_ctx s s1 \<Longrightarrow> same_ctx s1 s2 \<Longrightarrow> same_ctx s s2"
  by (simp add: same_ctx_def)

lemma gc_frame_ctx:
  assumes "gc_frame s s'"
  shows "same_ctx s s'" "value_pool s' = value_pool s" "gc_passes s' = gc_passes s"
    "string_buffer s' = string_buffer s" "scratch_buffers_remaining s' = scratch_buffers_remaining s"
proof -
  have e: "s' = s\<lparr>value_pool_data := value_pool_data s'\<rparr>" using assms by (simp add: gc_frame_def)
  show "same_ctx s s'" unfolding same_ctx_def by (subst e, simp)+
  show "value_pool s' = value_pool s" by (subst e) simp
  show "gc_passes s' = gc_passes s" by (subst e) simp
  show "string_buffer s' = string_buffer s" by (subst e) simp
  show "scratch_buffers_remaining s' = scratch_buffers_remaining s" by (subst e) simp
qed

lemma sweep_cell_ctx:
  "same_ctx s (snd (sweep_cell i (c, s))) \<and> gc_passes (snd (sweep_cell i (c, s))) = gc_passes s"
  by (simp add: sweep_cell_def Let_def same_ctx_def value_pool_free_def invoke_finalizer_def
      split: Obj.splits)

lemma sweep_cell_pinv:
  assumes i: "i < VALUE_POOL_SIZE" and p: "pinv s xs"
  shows "\<exists>ys. pinv (snd (sweep_cell i (c, s))) ys \<and>
           length ys + c = length xs + fst (sweep_cell i (c, s)) \<and> c \<le> fst (sweep_cell i (c, s))"
proof (cases "alive (value_pool_data s i)")
  case False
  then show ?thesis using p by (auto simp: sweep_cell_def Let_def)
next
  case True
  note al = this
  show ?thesis
  proof (cases "mark_bit (value_pool_data s i)")
    case True
    let ?s' = "s\<lparr>value_pool_data := (value_pool_data s)(i := (value_pool_data s i)\<lparr>mark_bit := False\<rparr>)\<rparr>"
    have "fl_path (value_pool_data ?s') (value_pool s) xs"
      by (rule fl_path_frame[where h = "value_pool_data s"]) (use p in \<open>auto simp: pinv_def\<close>)
    then have "pinv ?s' xs" using p by (auto simp: pinv_def)
    then show ?thesis using al True by (auto simp: sweep_cell_def Let_def)
  next
    case False
    let ?s1 = "invoke_finalizer i s"
    let ?s' = "value_pool_free i ?s1"
    have h1: "value_pool_data ?s1 = value_pool_data s" "value_pool ?s1 = value_pool s"
      by (auto simp: invoke_finalizer_def split: Obj.splits)
    have ni: "i \<notin> set xs" using p al by (auto simp: pinv_def)
    have vd: "value_pool_data ?s' = (value_pool_data s)(i := free_cell (value_pool s))"
      and vp: "value_pool ?s' = Some i"
      using h1 by (auto simp: value_pool_free_def)
    have "fl_path (value_pool_data ?s') (value_pool s) xs"
      by (rule fl_path_frame[where h = "value_pool_data s"]) (use p ni vd in \<open>auto simp: pinv_def\<close>)
    then have "fl_path (value_pool_data ?s') (value_pool ?s') (i # xs)"
      using vd vp by (simp add: free_cell_def)
    moreover have "set (i # xs) = {j. j < VALUE_POOL_SIZE \<and> \<not> alive (value_pool_data ?s' j)}"
      using p i vd by (auto simp: pinv_def free_cell_def)
    ultimately have "pinv ?s' (i # xs)" using p ni by (simp add: pinv_def)
    moreover have "sweep_cell i (c, s) = (c + 1, ?s')"
      using al False by (simp add: sweep_cell_def Let_def)
    ultimately show ?thesis by (intro exI[of _ "i # xs"]) simp
  qed
qed

lemma fold_sweep_pinv:
  assumes "\<forall>i \<in> set is. i < VALUE_POOL_SIZE" and "pinv s xs"
  shows "\<exists>ys. pinv (snd (fold sweep_cell is (c, s))) ys \<and>
           length ys + c = length xs + fst (fold sweep_cell is (c, s)) \<and>
           c \<le> fst (fold sweep_cell is (c, s)) \<and>
           same_ctx s (snd (fold sweep_cell is (c, s))) \<and>
           gc_passes (snd (fold sweep_cell is (c, s))) = gc_passes s"
  using assms
proof (induction "is" arbitrary: c s xs)
  case Nil
  then show ?case by (auto simp: same_ctx_refl)
next
  case (Cons i "is")
  obtain c1 s1 where sc: "sweep_cell i (c, s) = (c1, s1)" by (cases "sweep_cell i (c, s)")
  from Cons.prems obtain ys1 where y1: "pinv s1 ys1" "length ys1 + c = length xs + c1" "c \<le> c1"
    using sweep_cell_pinv[of i s xs c] sc by auto
  have ctx1: "same_ctx s s1" "gc_passes s1 = gc_passes s"
    using sweep_cell_ctx[of s i c] sc by auto
  from Cons.IH[of s1 ys1 c1] Cons.prems y1 obtain ys where
    ys: "pinv (snd (fold sweep_cell is (c1, s1))) ys"
    "length ys + c1 = length ys1 + fst (fold sweep_cell is (c1, s1))"
    "c1 \<le> fst (fold sweep_cell is (c1, s1))"
    "same_ctx s1 (snd (fold sweep_cell is (c1, s1)))"
    "gc_passes (snd (fold sweep_cell is (c1, s1))) = gc_passes s1"
    by auto
  show ?case
    apply (rule exI[of _ ys])
    using ys y1 ctx1 sc by (auto intro: same_ctx_trans)
qed

lemma gc_sweep_pinv:
  assumes "pinv s xs"
  shows "\<exists>ys. pinv (snd (gc_sweep s)) ys \<and> length ys = length xs + fst (gc_sweep s) \<and>
           same_ctx s (snd (gc_sweep s)) \<and> gc_passes (snd (gc_sweep s)) = gc_passes s"
proof -
  let ?s0 = "if \<not> mark_bit (value_pool_data s (string_buffer s)) then s\<lparr>string_buffer := nil_val s\<rparr> else s"
  have p0: "pinv ?s0 xs" using assms by (simp add: pinv_def)
  have c0: "same_ctx s ?s0" "gc_passes ?s0 = gc_passes s" by (auto simp: same_ctx_def)
  have "\<forall>i \<in> set [0..<VALUE_POOL_SIZE]. i < VALUE_POOL_SIZE" by simp
  from fold_sweep_pinv[OF this p0, of 0] obtain ys where
    "pinv (snd (fold sweep_cell [0..<VALUE_POOL_SIZE] (0, ?s0))) ys"
    "length ys + 0 = length xs + fst (fold sweep_cell [0..<VALUE_POOL_SIZE] (0, ?s0))"
    "same_ctx ?s0 (snd (fold sweep_cell [0..<VALUE_POOL_SIZE] (0, ?s0)))"
    "gc_passes (snd (fold sweep_cell [0..<VALUE_POOL_SIZE] (0, ?s0))) = gc_passes ?s0"
    by blast
  then show ?thesis unfolding gc_sweep_def Let_def
    using c0 by (intro exI[of _ ys]) (auto intro: same_ctx_trans)
qed

lemma run_gc_pinv:
  assumes "pinv s xs" and "run_gc n s = Some (c, s')"
  shows "\<exists>ys. pinv s' ys \<and> length ys = length xs + c \<and> same_ctx s s' \<and>
           gc_passes s' = gc_passes s + 1"
proof -
  from assms(2) obtain s1 where m: "gc_mark n s = Some s1"
    and r: "c = fst (gc_sweep s1)" "s' = (snd (gc_sweep s1))\<lparr>gc_passes := gc_passes (snd (gc_sweep s1)) + 1\<rparr>"
    unfolding run_gc_def by (auto split: option.splits simp: Let_def)
  have f: "gc_frame s s1" using m by (rule gc_mark_frame)
  then have p1: "pinv s1 xs" using assms(1) pinv_gc_frame by blast
  from gc_sweep_pinv[OF p1] obtain ys where
    ys: "pinv (snd (gc_sweep s1)) ys" "length ys = length xs + fst (gc_sweep s1)"
    "same_ctx s1 (snd (gc_sweep s1))" "gc_passes (snd (gc_sweep s1)) = gc_passes s1"
    by blast
  have "pinv s' ys" using ys(1) r(2) by (simp add: pinv_def)
  moreover have "same_ctx s s'"
    using gc_frame_ctx(1)[OF f] ys(3) r(2) by (simp add: same_ctx_def)
  moreover have "gc_passes s' = gc_passes s + 1"
    using gc_frame_ctx(3)[OF f] ys(4) r(2) by simp
  ultimately show ?thesis using ys(2) r(1) by blast
qed

lemma value_pool_alloc_pinv:
  assumes "pinv s (x # xs)"
  shows "\<exists>nx. obj (value_pool_data s x) = HeapNode nx \<and>
           value_pool_alloc s = Some (Some x, s\<lparr>value_pool := nx\<rparr>) \<and>
           pinv (init_val x (s\<lparr>value_pool := nx\<rparr>)) xs"
proof -
  from assms obtain nx where vp: "value_pool s = Some x"
    and o: "obj (value_pool_data s x) = HeapNode nx"
    and pth: "fl_path (value_pool_data s) nx xs"
    and d: "x \<notin> set xs" "distinct xs"
    and st: "set (x # xs) = {i. i < VALUE_POOL_SIZE \<and> \<not> alive (value_pool_data s i)}"
    unfolding pinv_def by (auto split: Obj.splits)
  let ?s' = "init_val x (s\<lparr>value_pool := nx\<rparr>)"
  have "fl_path (value_pool_data ?s') nx xs"
    by (rule fl_path_frame[OF pth]) (use d in \<open>auto simp: init_val_def\<close>)
  moreover have "set xs = {i. i < VALUE_POOL_SIZE \<and> \<not> alive (value_pool_data ?s' i)}"
    using st d by (auto simp: init_val_def)
  ultimately have "pinv ?s' xs" using d by (simp add: pinv_def init_val_def)
  then show ?thesis using vp o by (simp add: value_pool_alloc_def)
qed

lemma value_pool_alloc_empty:
  assumes "pinv s []"
  shows "value_pool_alloc s = Some (None, s)"
  using assms by (simp add: pinv_def value_pool_alloc_def)

lemma init_val_ctx: "same_ctx s (init_val v (s\<lparr>value_pool := nx\<rparr>))"
  "gc_passes (init_val v (s\<lparr>value_pool := nx\<rparr>)) = gc_passes s"
  "alive (value_pool_data (init_val v s1) v)"
  by (auto simp: init_val_def same_ctx_def)

lemma alloc_value_nonempty:
  assumes "pinv s (x # xs)"
  shows "\<exists>s'. alloc_value n s = Some (Some x, s') \<and> pinv s' xs \<and> same_ctx s s' \<and>
           gc_passes s' = gc_passes s \<and> alive (value_pool_data s' x)"
proof -
  from value_pool_alloc_pinv[OF assms] obtain nx where
    a: "value_pool_alloc s = Some (Some x, s\<lparr>value_pool := nx\<rparr>)"
    and p: "pinv (init_val x (s\<lparr>value_pool := nx\<rparr>)) xs" by blast
  show ?thesis
    apply (rule exI[of _ "init_val x (s\<lparr>value_pool := nx\<rparr>)"])
    using a p init_val_ctx by (simp add: alloc_value_def)
qed

lemma alloc_value_empty:
  assumes p: "pinv s []" and r: "alloc_value n s = Some (res, s')"
  shows "\<exists>c s1 ys. run_gc n s = Some (c, s1) \<and> pinv s1 ys \<and> length ys = c \<and> same_ctx s s' \<and>
           gc_passes s' = gc_passes s + 1 \<and>
           (case res of
              None \<Rightarrow> ys = [] \<and> s' = s1
            | Some v \<Rightarrow> ys \<noteq> [] \<and> v = hd ys \<and> pinv s' (tl ys) \<and> alive (value_pool_data s' v))"
proof -
  have a0: "value_pool_alloc s = Some (None, s)" using p by (rule value_pool_alloc_empty)
  with r obtain c s1 where g: "run_gc n s = Some (c, s1)"
    by (auto simp: alloc_value_def split: option.splits)
  from run_gc_pinv[OF p g] obtain ys where
    ys: "pinv s1 ys" "length ys = c" "same_ctx s s1" "gc_passes s1 = gc_passes s + 1" by auto
  show ?thesis
  proof (cases ys)
    case Nil
    then have "value_pool_alloc s1 = Some (None, s1)" using ys(1) value_pool_alloc_empty by blast
    with r a0 g have "res = None" "s' = s1" by (auto simp: alloc_value_def)
    then show ?thesis using g ys Nil by auto
  next
    case (Cons y ys')
    from alloc_value_nonempty[of s1 y ys' n] ys(1) Cons obtain s2 where
      s2: "alloc_value n s1 = Some (Some y, s2)" "pinv s2 ys'" "same_ctx s1 s2"
      "gc_passes s2 = gc_passes s1" "alive (value_pool_data s2 y)" by auto
    from value_pool_alloc_pinv[of s1 y ys'] ys(1) Cons obtain nx where
      va: "value_pool_alloc s1 = Some (Some y, s1\<lparr>value_pool := nx\<rparr>)" by auto
    have "alloc_value n s1 = Some (Some y, init_val y (s1\<lparr>value_pool := nx\<rparr>))"
      using va by (simp add: alloc_value_def)
    with s2 have e2: "s2 = init_val y (s1\<lparr>value_pool := nx\<rparr>)" by simp
    from r a0 g va have "res = Some y" "s' = init_val y (s1\<lparr>value_pool := nx\<rparr>)"
      by (auto simp: alloc_value_def)
    then show ?thesis using g ys s2 e2 Cons by (auto intro: same_ctx_trans)
  qed
qed

lemma alloc_value_pinv:
  assumes p: "pinv s xs" and r: "alloc_value n s = Some (res, s')"
  shows "\<exists>ys. pinv s' ys \<and> same_ctx s s'"
proof (cases xs)
  case Nil
  with alloc_value_empty[OF _ r] p show ?thesis
    by (cases res) (auto; blast)+
next
  case (Cons x xs')
  with alloc_value_nonempty[of s x xs' n] p r show ?thesis by auto
qed

lemma set_obj_alive_pinv:
  assumes "pinv s xs" and "alive (value_pool_data s p)"
  shows "pinv (set_obj p x s) xs"
proof -
  have ni: "p \<notin> set xs" using assms by (auto simp: pinv_def)
  have "fl_path (value_pool_data (set_obj p x s)) (value_pool s) xs"
    by (rule fl_path_frame[where h = "value_pool_data s"])
       (use assms ni in \<open>auto simp: pinv_def set_obj_def\<close>)
  then show ?thesis using assms by (auto simp: pinv_def set_obj_def)
qed

lemma set_obj_ctx: "same_ctx s (set_obj p x s)" "gc_passes (set_obj p x s) = gc_passes s"
  "oom_val (set_obj p x s) = oom_val s"
  by (auto simp: set_obj_def same_ctx_def)

lemma construct_pinv:
  assumes p: "pinv s xs" and r: "construct n x s = Some (v, s')"
  shows "\<exists>ys. pinv s' ys \<and> same_ctx s s'"
proof -
  from r obtain res s1 where a: "alloc_value n s = Some (res, s1)"
    by (auto simp: construct_def split: option.splits)
  from alloc_value_pinv[OF p a] obtain ys where ys: "pinv s1 ys" "same_ctx s s1" by blast
  show ?thesis
  proof (cases res)
    case None
    with r a have "s' = s1" by (simp add: construct_def)
    then show ?thesis using ys by blast
  next
    case (Some w)
    with r a have e: "s' = set_obj w x s1" by (auto simp: construct_def)
    have "alive (value_pool_data s1 w)"
    proof (cases xs)
      case Nil
      with alloc_value_empty[OF _ a] p Some show ?thesis by auto
    next
      case (Cons y ys')
      with alloc_value_nonempty[of s y ys' n] p a Some show ?thesis by auto
    qed
    then have "pinv s' ys" using ys(1) e set_obj_alive_pinv by blast
    moreover have "same_ctx s s'" using ys(2) e set_obj_ctx(1) same_ctx_trans by blast
    ultimately show ?thesis by blast
  qed
qed

lemma exec_op_pool_inv:
  assumes "pool_inv s" and "exec_op n x s = Some s'"
  shows "pool_inv s'"
proof -
  from assms(1) obtain xs where p: "pinv s xs" unfolding pool_inv_iff by blast
  have "\<exists>ys. pinv s' ys"
  proof (cases x)
    case (Op_construct ob)
    with assms(2) obtain v where "construct n ob s = Some (v, s')" by auto
    from construct_pinv[OF p this] show ?thesis by blast
  next
    case Op_run_gc
    with assms(2) obtain c where "run_gc n s = Some (c, s')" by auto
    from run_gc_pinv[OF p this] show ?thesis by blast
  next
    case Op_gc_primitive
    with assms(2) obtain c s1 v where g: "run_gc n s = Some (c, s1)"
      and m: "construct n (Integer (word_of_nat c)) s1 = Some (v, s')"
      by (auto simp: native_gc_def make_integer_def split: option.splits)
    from run_gc_pinv[OF p g] obtain ys where "pinv s1 ys" by blast
    from construct_pinv[OF this m] show ?thesis by blast
  next
    case (Op_write q ob)
    with assms(2) p show ?thesis by (auto split: if_splits intro: set_obj_alive_pinv)
  next
    case (Op_push q)
    with assms(2) p show ?thesis by (auto simp: pinv_def push_op_def)
  next
    case Op_pop
    with assms(2) p show ?thesis by (auto simp: pinv_def pop_op_def)
  next
    case (Op_set_this q)
    with assms(2) p show ?thesis by (auto simp: pinv_def)
  next
    case (Op_set_lexical_bindings q)
    with assms(2) p show ?thesis by (auto simp: pinv_def)
  next
    case (Op_set_globals_tree q)
    with assms(2) p show ?thesis by (auto simp: pinv_def)
  next
    case (Op_set_macros q)
    with assms(2) p show ?thesis by (auto simp: pinv_def)
  qed
  then show ?thesis unfolding pool_inv_iff .
qed

lemma exec_ops_pool_inv:
  "pool_inv s \<Longrightarrow> exec_ops n ops s = Some s' \<Longrightarrow> pool_inv s'"
proof (induction ops arbitrary: s)
  case Nil
  then show ?case by simp
next
  case (Cons x xs)
  then show ?case by (auto split: option.splits dest: exec_op_pool_inv)
qed

lemma pool_inv_count:
  assumes "pool_inv s"
  shows "\<exists>k. free_count s = Some k \<and> k + live_count s = VALUE_POOL_SIZE"
proof -
  from assms obtain xs where p: "pinv s xs" unfolding pool_inv_iff by blast
  then have "free_cells s = Some xs" by (rule pinv_free_cells)
  then show ?thesis using pinv_count[OF p] by (simp add: free_count_def)
qed

lemma value_pool_init_boot:
  "value_pool_init (boot k) =
     (boot k)\<lparr>value_pool_data := (\<lambda>i. if i = 0 then free_cell None
                                        else if i < 9000 then free_cell (Some (i - 1))
                                        else free_cell None),
              value_pool := Some 8999\<rparr>"
proof -
  have vp: "value_pool (value_pool_init (boot k)) = Some 8999"
    by (simp add: value_pool_init_def init_loop_pool VALUE_POOL_SIZE_def)
  have vd: "value_pool_data (value_pool_init (boot k)) =
      (\<lambda>i. if i = 0 then free_cell None else if i < 9000 then free_cell (Some (i - 1)) else free_cell None)"
  proof
    fix i
    show "value_pool_data (value_pool_init (boot k)) i =
      (if i = 0 then free_cell None else if i < 9000 then free_cell (Some (i - 1)) else free_cell None)"
    proof (cases "i < 9000")
      case True
      then show ?thesis using init_cell[of i "boot k"] by (simp add: VALUE_POOL_SIZE_def boot_def)
    next
      case False
      then show ?thesis
        by (simp add: value_pool_init_def init_loop_cell_above VALUE_POOL_SIZE_def boot_def)
    qed
  qed
  have rest: "\<And>i k s. value_pool_init_loop i k s
      = s\<lparr>value_pool_data := value_pool_data (value_pool_init_loop i k s),
           value_pool := value_pool (value_pool_init_loop i k s)\<rparr>"
  proof -
    fix i k s show "value_pool_init_loop i k s
      = s\<lparr>value_pool_data := value_pool_data (value_pool_init_loop i k s),
           value_pool := value_pool (value_pool_init_loop i k s)\<rparr>"
      by (induction i k s rule: value_pool_init_loop.induct) auto
  qed
  show ?thesis
    apply (subst rest[of 0 VALUE_POOL_SIZE "boot k", folded value_pool_init_def])
    apply (simp only: vp vd)
    done
qed

lemma init_core_boot: "init_core n (boot k) = Some (initial_state k)"
proof -
  have "initial_pool = (\<lambda>i. if i = 8999 then \<lparr>alive = True, mark_bit = False, obj = NilCell\<rparr>
      else if i = 8998 then \<lparr>alive = True, mark_bit = False, obj = Error out_of_memory 8999\<rparr>
      else if i = 0 then free_cell None
      else if i < 8998 then free_cell (Some (i - 1))
      else free_cell None)"
    by (rule ext) (simp add: initial_pool_def)
  then show ?thesis
    unfolding init_core_def value_pool_init_boot
    by (auto simp: alloc_value_def value_pool_alloc_def boot_def free_cell_def init_val_def
        set_obj_def push_op_def OPERAND_STACK_SIZE_def initial_state_def Let_def fun_eq_iff)
qed

lemma sweep_cell_marked:
  assumes "alive (value_pool_data s i) \<longrightarrow> mark_bit (value_pool_data s i)"
  shows "sweep_cell i (c, s) =
     (c, s\<lparr>value_pool_data := (\<lambda>j. if j = i \<and> alive (value_pool_data s j)
                 then (value_pool_data s j)\<lparr>mark_bit := False\<rparr> else value_pool_data s j)\<rparr>)"
proof (cases "alive (value_pool_data s i)")
  case True
  have "(value_pool_data s)(i := (value_pool_data s i)\<lparr>mark_bit := False\<rparr>) =
     (\<lambda>j. if j = i \<and> alive (value_pool_data s j)
                 then (value_pool_data s j)\<lparr>mark_bit := False\<rparr> else value_pool_data s j)"
    using True by (auto simp: fun_eq_iff)
  then show ?thesis using True assms by (simp add: sweep_cell_def Let_def)
next
  case False
  have "(\<lambda>j. if j = i \<and> alive (value_pool_data s j)
                 then (value_pool_data s j)\<lparr>mark_bit := False\<rparr> else value_pool_data s j) = value_pool_data s"
    using False by (auto simp: fun_eq_iff)
  then show ?thesis using False by (simp add: sweep_cell_def Let_def)
qed

lemma fold_sweep_all_marked:
  assumes "distinct is"
    and "\<forall>i \<in> set is. alive (value_pool_data s i) \<longrightarrow> mark_bit (value_pool_data s i)"
  shows "fold sweep_cell is (c, s) =
     (c, s\<lparr>value_pool_data :=
            (\<lambda>j. if j \<in> set is \<and> alive (value_pool_data s j)
                 then (value_pool_data s j)\<lparr>mark_bit := False\<rparr> else value_pool_data s j)\<rparr>)"
  using assms
proof (induction "is" arbitrary: s)
  case Nil
  then show ?case by simp
next
  case (Cons i "is")
  let ?h = "value_pool_data s"
  let ?h1 = "\<lambda>j. if j = i \<and> alive (?h j) then (?h j)\<lparr>mark_bit := False\<rparr> else ?h j"
  let ?s1 = "s\<lparr>value_pool_data := ?h1\<rparr>"
  have st: "sweep_cell i (c, s) = (c, ?s1)"
    by (rule sweep_cell_marked) (use Cons.prems in simp)
  have d: "distinct is" and ni: "i \<notin> set is" using Cons.prems by auto
  have m: "\<forall>j \<in> set is. alive (value_pool_data ?s1 j) \<longrightarrow> mark_bit (value_pool_data ?s1 j)"
    using Cons.prems ni by auto
  have h2: "(\<lambda>j. if j \<in> set is \<and> alive (?h1 j) then (?h1 j)\<lparr>mark_bit := False\<rparr> else ?h1 j) =
     (\<lambda>j. if j \<in> set (i # is) \<and> alive (?h j) then (?h j)\<lparr>mark_bit := False\<rparr> else ?h j)"
    using ni by (auto simp: fun_eq_iff)
  have "fold sweep_cell (i # is) (c, s) = fold sweep_cell is (c, ?s1)" using st by simp
  also have "\<dots> = (c, ?s1\<lparr>value_pool_data :=
            (\<lambda>j. if j \<in> set is \<and> alive (value_pool_data ?s1 j)
                 then (value_pool_data ?s1 j)\<lparr>mark_bit := False\<rparr> else value_pool_data ?s1 j)\<rparr>)"
    by (rule Cons.IH[OF d m])
  also have "\<dots> = (c, s\<lparr>value_pool_data :=
            (\<lambda>j. if j \<in> set (i # is) \<and> alive (?h j)
                 then (?h j)\<lparr>mark_bit := False\<rparr> else ?h j)\<rparr>)"
    using h2 by (simp cong: if_cong)
  finally show ?case .
qed

lemma gc_sweep_all_marked:
  assumes "\<forall>i < VALUE_POOL_SIZE. alive (value_pool_data s i) \<longrightarrow> mark_bit (value_pool_data s i)"
    and "mark_bit (value_pool_data s (string_buffer s))"
  shows "gc_sweep s =
     (0, s\<lparr>value_pool_data :=
            (\<lambda>j. if j < VALUE_POOL_SIZE \<and> alive (value_pool_data s j)
                 then (value_pool_data s j)\<lparr>mark_bit := False\<rparr> else value_pool_data s j)\<rparr>)"
proof -
  have "fold sweep_cell [0..<VALUE_POOL_SIZE] (0, s) =
     (0, s\<lparr>value_pool_data :=
            (\<lambda>j. if j \<in> set [0..<VALUE_POOL_SIZE] \<and> alive (value_pool_data s j)
                 then (value_pool_data s j)\<lparr>mark_bit := False\<rparr> else value_pool_data s j)\<rparr>)"
    by (rule fold_sweep_all_marked) (use assms in auto)
  then show ?thesis using assms(2) by (simp add: gc_sweep_def)
qed

lemma mark_value_marked:
  "mark_bit (value_pool_data s v) \<Longrightarrow> mark_value (Suc n) v s = Some s"
  by (simp add: mark_value_def)

lemma gc_mark_initial:
  "gc_mark (Suc (Suc n)) (initial_state k) = Some ((initial_state k)\<lparr>value_pool_data := marked_initial_pool\<rparr>)"
proof -
  let ?s = "initial_state k"
  let ?s1 = "?s\<lparr>value_pool_data := set_mark 8999 initial_pool\<rparr>"
  let ?s2 = "?s\<lparr>value_pool_data := marked_initial_pool\<rparr>"
  have a: "set_mark 8998 (set_mark 8999 initial_pool) = marked_initial_pool"
    by (rule ext) (simp add: set_mark_def marked_initial_pool_def initial_pool_def)
  have f: "nil_val ?s = 8999" "oom_val ?s = 8998" "lexical_bindings ?s = 8999" "macros ?s = 8999"
    "operand_stack ?s = [8999, 8999]" "globals_tree ?s = 8999" "this_val ?s = 8999"
    "protected_values ?s = None" "value_pool_data ?s = initial_pool"
    by (simp_all add: initial_state_def)
  let ?n = "Suc (Suc n)"
  have m1: "gc_mark_value ?n 8999 initial_pool = Some (set_mark 8999 initial_pool)"
    by (simp add: initial_pool_def)
  have m2: "gc_mark_value ?n 8998 (set_mark 8999 initial_pool) = Some marked_initial_pool"
    unfolding a[symmetric]
    by (simp add: initial_pool_def set_mark_def)
  have s1: "mark_value ?n 8999 ?s = Some ?s1" by (simp only: mark_value_def f m1) simp
  have s2: "mark_value ?n 8998 ?s1 = Some ?s2" by (simp add: mark_value_def m2 del: gc_mark_value.simps)
  have mk: "mark_bit (value_pool_data ?s2 8999)" by (simp add: marked_initial_pool_def)
  have s3: "mark_value ?n 8999 ?s2 = Some ?s2"
    using mk by (rule mark_value_marked)
  have s5: "mark_stack ?n [8999, 8999] ?s2 = Some ?s2" by (simp add: s3 del: gc_mark_value.simps)
  have s6: "globals_tree_traverse ?n 8999 (mark_tree_node ?n) ?s2 = Some ?s2"
    by (simp add: globals_tree_traverse_def f)
  have s8: "mark_protected ?n None ?s2 = Some ?s2" by simp
  show ?thesis
    unfolding gc_mark_def
    by (simp add: f s1 s2 s3 s5 s6 s8 del: gc_mark_value.simps mark_protected.simps mark_stack.simps)
qed

lemma run_gc_initial:
  "run_gc (Suc (Suc n)) (initial_state k) = Some (0, (initial_state k)\<lparr>gc_passes := Suc 0\<rparr>)"
proof -
  let ?s1 = "(initial_state k)\<lparr>value_pool_data := marked_initial_pool\<rparr>"
  have vd: "value_pool_data ?s1 = marked_initial_pool" by simp
  have m: "\<forall>i < VALUE_POOL_SIZE. alive (value_pool_data ?s1 i) \<longrightarrow> mark_bit (value_pool_data ?s1 i)"
    by (simp add: marked_initial_pool_def initial_pool_def free_cell_def)
  have sb: "mark_bit (value_pool_data ?s1 (string_buffer ?s1))"
    by (simp add: marked_initial_pool_def initial_state_def)
  have e: "(\<lambda>j. if j < VALUE_POOL_SIZE \<and> alive (marked_initial_pool j)
                 then (marked_initial_pool j)\<lparr>mark_bit := False\<rparr> else marked_initial_pool j) = initial_pool"
    by (rule ext) (simp add: marked_initial_pool_def initial_pool_def VALUE_POOL_SIZE_def free_cell_def)
  have "gc_sweep ?s1 = (0, initial_state k)"
    unfolding gc_sweep_all_marked[OF m sb] vd e by (simp add: initial_state_def)
  moreover have "gc_passes (initial_state k) = 0" by (simp add: initial_state_def)
  ultimately show ?thesis by (simp add: run_gc_def gc_mark_initial del: gc_mark_value.simps)
qed

lemma pinv_initial: "pinv (initial_state k) (rev [0..<8998])"
proof -
  have "fl_path initial_pool (Some 8997) (rev [0..<Suc 8997])"
    by (rule down_path) (simp add: initial_pool_def free_cell_def)
  moreover have "{0..<8998} = {i. i < VALUE_POOL_SIZE \<and> \<not> alive (initial_pool i)}"
    by (auto simp: initial_pool_def free_cell_def VALUE_POOL_SIZE_def)
  ultimately show ?thesis by (simp add: pinv_def initial_state_def)
qed

lemma free_count_initial: "free_count (initial_state k) = Some 8998"
  using pinv_free_cells[OF pinv_initial] by (simp add: free_count_def)

lemma native_gc_initial:
  "map_option (free_count \<circ> snd) (native_gc 10 0 (initial_state k)) = Some (Some 8997)"
proof -
  let ?s1 = "(initial_state k)\<lparr>gc_passes := Suc 0\<rparr>"
  have r: "rev [0..<8998] = 8997 # rev [0..<8997]"
  proof -
    have "[0..<Suc 8997] = [0..<8997] @ [8997]" by (rule upt_Suc_append) simp
    then show ?thesis by simp
  qed
  have p1: "pinv ?s1 (8997 # rev [0..<8997])"
    using pinv_initial[of k] unfolding r by (simp add: pinv_def)
  from alloc_value_nonempty[OF p1, of 10] obtain s2 where
    s2: "alloc_value 10 ?s1 = Some (Some 8997, s2)" "pinv s2 (rev [0..<8997])"
    "alive (value_pool_data s2 8997)" by blast
  have "pinv (set_obj 8997 (Integer 0) s2) (rev [0..<8997])"
    using s2(2,3) by (rule set_obj_alive_pinv)
  then have "free_cells (set_obj 8997 (Integer 0) s2) = Some (rev [0..<8997])"
    by (rule pinv_free_cells)
  then have "free_count (set_obj 8997 (Integer 0) s2) = Some 8997"
    by (simp add: free_count_def)
  moreover have "run_gc 10 (initial_state k) = Some (0, ?s1)"
    using run_gc_initial[of 8 k] by (simp add: numeral_eq_Suc)
  ultimately show ?thesis
    by (simp add: native_gc_def make_integer_def construct_def s2(1))
qed

lemma fold_sweep_ctx:
  "same_ctx s (snd (fold sweep_cell is (c, s))) \<and>
   gc_passes (snd (fold sweep_cell is (c, s))) = gc_passes s"
proof (induction "is" arbitrary: c s)
  case Nil
  then show ?case by (simp add: same_ctx_refl)
next
  case (Cons i "is")
  obtain c1 s1 where sc: "sweep_cell i (c, s) = (c1, s1)" by (cases "sweep_cell i (c, s)")
  have "same_ctx s s1" "gc_passes s1 = gc_passes s" using sweep_cell_ctx[of s i c] sc by auto
  then show ?case using Cons.IH[of s1 c1] sc by (auto intro: same_ctx_trans)
qed

lemma gc_sweep_ctx:
  "same_ctx s (snd (gc_sweep s)) \<and> gc_passes (snd (gc_sweep s)) = gc_passes s"
proof -
  let ?s0 = "if \<not> mark_bit (value_pool_data s (string_buffer s)) then s\<lparr>string_buffer := nil_val s\<rparr> else s"
  have c0: "same_ctx s ?s0" "gc_passes ?s0 = gc_passes s" by (auto simp: same_ctx_def)
  show ?thesis unfolding gc_sweep_def Let_def
    using fold_sweep_ctx[of ?s0 "[0..<VALUE_POOL_SIZE]" 0] c0 by (auto intro: same_ctx_trans)
qed

lemma run_gc_ctx:
  assumes "run_gc n s = Some (c, s')"
  shows "same_ctx s s'" "gc_passes s' = gc_passes s + 1"
proof -
  from assms obtain s1 where m: "gc_mark n s = Some s1"
    and r: "s' = (snd (gc_sweep s1))\<lparr>gc_passes := gc_passes (snd (gc_sweep s1)) + 1\<rparr>"
    unfolding run_gc_def by (auto split: option.splits simp: Let_def)
  have f: "gc_frame s s1" using m by (rule gc_mark_frame)
  show "same_ctx s s'"
    using gc_frame_ctx(1)[OF f] gc_sweep_ctx[of s1] r by (simp add: same_ctx_def)
  show "gc_passes s' = gc_passes s + 1"
    using gc_frame_ctx(3)[OF f] gc_sweep_ctx[of s1] r by simp
qed

lemma value_pool_alloc_ctx:
  assumes "value_pool_alloc s = Some (r, s')"
  shows "same_ctx s s'" "gc_passes s' = gc_passes s" "(r = None) = (value_pool s = None)"
    "value_pool s = None \<Longrightarrow> s' = s" "r \<noteq> None \<Longrightarrow> r = value_pool s"
  using assms
  by (auto simp: value_pool_alloc_def same_ctx_def split: option.splits Obj.splits)
     (metis option.simps(3))+

lemma init_val_ctx2: "same_ctx s (init_val v s)" "gc_passes (init_val v s) = gc_passes s"
  by (auto simp: init_val_def same_ctx_def)

lemma alloc_value_head:
  assumes "value_pool s = Some v" and "alloc_value n s = Some (r, s')"
  shows "r = Some v \<and> gc_passes s' = gc_passes s \<and> same_ctx s s' \<and>
         obj (value_pool_data s v) = HeapNode (value_pool s') \<and> alive (value_pool_data s' v)"
  using assms
  by (auto simp: alloc_value_def value_pool_alloc_def init_val_def same_ctx_def
      split: option.splits Obj.splits)

lemma alloc_value_gc:
  assumes "value_pool s = None" and "alloc_value n s = Some (r, s')"
  shows "\<exists>c s1. run_gc n s = Some (c, s1) \<and> gc_passes s' = gc_passes s + 1 \<and> same_ctx s s' \<and>
           (case value_pool s1 of None \<Rightarrow> r = None \<and> s' = s1 | Some v \<Rightarrow> r = Some v)"
proof -
  have a0: "value_pool_alloc s = Some (None, s)" using assms(1) by (simp add: value_pool_alloc_def)
  with assms(2) obtain c s1 where g: "run_gc n s = Some (c, s1)"
    by (auto simp: alloc_value_def split: option.splits)
  note gc = run_gc_ctx[OF g]
  from assms(2) a0 g obtain r2 s2 where a2: "value_pool_alloc s1 = Some (r2, s2)"
    by (auto simp: alloc_value_def split: option.splits)
  note vc = value_pool_alloc_ctx[OF a2]
  show ?thesis
  proof (cases r2)
    case None
    with assms(2) a0 g a2 have "r = None" "s' = s2" by (auto simp: alloc_value_def)
    moreover have "value_pool s1 = None" "s2 = s1" using vc None by auto
    ultimately show ?thesis using g gc by auto
  next
    case (Some v)
    with assms(2) a0 g a2 have e: "r = Some v" "s' = init_val v s2" by (auto simp: alloc_value_def)
    have "value_pool s1 = Some v" using vc(5) Some by auto
    moreover have "same_ctx s s'"
      using gc(1) vc(1) init_val_ctx2(1)[of s2 v] e by (auto intro: same_ctx_trans)
    moreover have "gc_passes s' = gc_passes s + 1"
      using gc(2) vc(2) init_val_ctx2(2)[of v s2] e by simp
    ultimately show ?thesis using g e by auto
  qed
qed

lemma alloc_value_passes:
  assumes "alloc_value n s = Some (r, s')"
  shows "same_ctx s s'" "gc_passes s \<le> gc_passes s'" "gc_passes s' \<le> gc_passes s + 1"
proof -
  have "same_ctx s s' \<and> gc_passes s \<le> gc_passes s' \<and> gc_passes s' \<le> gc_passes s + 1"
  proof (cases "value_pool s")
    case None
    from alloc_value_gc[OF None assms] show ?thesis by auto
  next
    case (Some v)
    from alloc_value_head[OF Some assms] show ?thesis by auto
  qed
  then show "same_ctx s s'" "gc_passes s \<le> gc_passes s'" "gc_passes s' \<le> gc_passes s + 1"
    by auto
qed

lemma alloc_value_fail:
  assumes "alloc_value n s = Some (None, s1)"
  shows "value_pool s = None" "gc_passes s1 = gc_passes s + 1" "oom_val s1 = oom_val s"
    "value_pool s1 = None"
proof -
  show vp: "value_pool s = None"
  proof (cases "value_pool s")
    case (Some v)
    from alloc_value_head[OF Some assms] show ?thesis by simp
  qed simp
  from alloc_value_gc[OF vp assms] obtain c s2 where
    g: "run_gc n s = Some (c, s2)" "gc_passes s1 = gc_passes s + 1" "same_ctx s s1"
    "(case value_pool s2 of None \<Rightarrow> s1 = s2 | Some v \<Rightarrow> False)" by (auto split: option.splits)
  show "gc_passes s1 = gc_passes s + 1" by (rule g(2))
  show "oom_val s1 = oom_val s" using g(3) by (simp add: same_ctx_def)
  show "value_pool s1 = None" using g(4) by (auto split: option.splits)
qed

lemma construct_fail:
  assumes "alloc_value n s = Some (None, s1)"
  shows "construct n x s = Some (oom_val s, s1)"
  using assms alloc_value_fail(3)[OF assms] by (simp add: construct_def)

lemma construct_result:
  assumes "construct n x s = Some (v, s')"
  shows "(v = oom_val s \<and> oom_val s' = oom_val s \<and> gc_passes s' = gc_passes s + 1 \<and>
            alloc_value n s = Some (None, s')) \<or>
         (obj (value_pool_data s' v) = x \<and> alive (value_pool_data s' v) \<and>
            oom_val s' = oom_val s \<and> gc_passes s' \<le> gc_passes s + 1)"
proof -
  from assms obtain r s1 where a: "alloc_value n s = Some (r, s1)"
    by (auto simp: construct_def split: option.splits)
  show ?thesis
  proof (cases r)
    case None
    with a assms have "v = oom_val s1" "s' = s1" by (auto simp: construct_def)
    then show ?thesis using alloc_value_fail[of n s s1] a None by auto
  next
    case (Some w)
    with a assms have e: "v = w" "s' = set_obj w x s1" by (auto simp: construct_def)
    have al: "alive (value_pool_data s1 w)"
    proof (cases "value_pool s")
      case None
      from alloc_value_gc[OF None a] Some obtain c s2 where
        "run_gc n s = Some (c, s2)" "value_pool s2 = Some w"
        by (auto split: option.splits)
      moreover from this a None have "alloc_value n s2 = Some (Some w, s1)"
        by (auto simp: alloc_value_def value_pool_alloc_def split: option.splits Obj.splits)
      ultimately show ?thesis using alloc_value_head[of s2 w n "Some w" s1] by auto
    next
      case (Some u)
      from alloc_value_head[OF Some a] \<open>r = Some w\<close> show ?thesis by auto
    qed
    have "same_ctx s s1" "gc_passes s1 \<le> gc_passes s + 1" using alloc_value_passes[OF a] by auto
    then show ?thesis using e al by (auto simp: set_obj_def same_ctx_def)
  qed
qed















section \<open>C10: range with a zero increment\<close>

text \<open>
  Claim C10. The built-in \<open>range\<close>, called with three integer arguments of which the
  increment (the top of the operand stack) is 0, returns nil at once: for every amount of
  fuel, also none, the result is the nil cell and the state is the one it was called in, so
  no list cell is allocated and the loop is never entered.
\<close>

theorem range_zero_increment:
  assumes "3 \<le> length (operand_stack s)"
    and "type_at s (get_op s 2) = T_integer"
    and "type_at s (get_op s 1) = T_integer"
    and "integer_value s (get_op s 0) = Some 0"
  shows "native_range n 3 s = Some (nil_val s, s)"
proof -
  have t0: "type_at s (get_op s 0) = T_integer"
    using assms(4) by (simp add: integer_value_def type_at_def split: Obj.splits)
  obtain st where st: "integer_value s (get_op s 2) = Some st"
    using assms(2) by (cases "obj (value_pool_data s (get_op s 2))") (simp_all add: integer_value_def type_at_def)
  obtain e where e: "integer_value s (get_op s 1) = Some e"
    using assms(3) by (cases "obj (value_pool_data s (get_op s 1))") (simp_all add: integer_value_def type_at_def)
  have g1: "get_op1 s = Some (get_op s 1)"
    using assms(1) by (simp add: get_op1_def get_op_def numeral_2_eq_2)
  have g0: "get_op0 s = Some (get_op s 0)"
    using assms(1) by (auto simp: get_op0_def get_op_def last_conv_nth)
  have a1: "type_at s (get_op s (Suc 0)) = T_integer" using assms(3) by simp
  have e1: "integer_value s (get_op s (Suc 0)) = Some e" using e by simp
  have g1': "get_op1 s = Some (get_op s (Suc 0))" using g1 by simp
  show ?thesis
    by (simp add: native_range_def expect_op_def assms(2,4) a1 t0 g1' g0 st e1 range_build_def)
qed

theorem range_zero_increment_witness:
  "native_range 0 3 range_state = Some (8999, range_state)"
proof -
  have "native_range 0 3 range_state = Some (nil_val range_state, range_state)"
    by (rule range_zero_increment)
       (simp_all add: range_state_def get_op_def type_at_def integer_value_def live_def)
  moreover have "nil_val range_state = 8999" by (simp add: range_state_def initial_state_def)
  ultimately show ?thesis by (simp only:)
qed

lemma alloc_value_count:
  assumes p: "pinv s xs" and r: "alloc_value n s = Some (res, s')"
  shows "\<exists>ys. pinv s' ys \<and> length xs \<le> length ys + 1 \<and>
           (\<forall>v. res = Some v \<longrightarrow> alive (value_pool_data s' v))"
proof (cases xs)
  case Nil
  from alloc_value_empty[OF p[unfolded Nil] r] obtain c s1 ys where
    h: "pinv s1 ys" "case res of None \<Rightarrow> ys = [] \<and> s' = s1
          | Some v \<Rightarrow> ys \<noteq> [] \<and> v = hd ys \<and> pinv s' (tl ys) \<and> alive (value_pool_data s' v)"
    by blast
  show ?thesis
  proof (cases res)
    case None
    with h have "pinv s' []" by simp
    with Nil None show ?thesis by auto
  next
    case (Some v)
    with h have "pinv s' (tl ys)" "alive (value_pool_data s' v)" by auto
    with Nil Some show ?thesis by auto
  qed
next
  case (Cons x xs')
  from alloc_value_nonempty[OF p[unfolded Cons], of n] r
  have "res = Some x" "pinv s' xs'" "alive (value_pool_data s' x)" by auto
  with Cons show ?thesis by auto
qed

lemma construct_count:
  assumes p: "pinv s xs" and r: "construct n x s = Some (v, s')"
  shows "\<exists>ys. pinv s' ys \<and> length xs \<le> length ys + 1"
proof -
  from r obtain res s1 where a: "alloc_value n s = Some (res, s1)"
    by (auto simp: construct_def split: option.splits)
  from alloc_value_count[OF p a] obtain ys where
    ys: "pinv s1 ys" "length xs \<le> length ys + 1" "\<forall>v. res = Some v \<longrightarrow> alive (value_pool_data s1 v)"
    by blast
  show ?thesis
  proof (cases res)
    case None
    with r a have "s' = s1" by (simp add: construct_def)
    then show ?thesis using ys by blast
  next
    case (Some w)
    with r a have e: "s' = set_obj w x s1" by (auto simp: construct_def)
    have "alive (value_pool_data s1 w)" using ys(3) Some by simp
    then have "pinv s' ys" using ys(1) e set_obj_alive_pinv by blast
    then show ?thesis using ys(2) by blast
  qed
qed

lemma pinv_fields:
  "value_pool_data s' = value_pool_data s \<Longrightarrow> value_pool s' = value_pool s \<Longrightarrow>
   pinv s' xs = pinv s xs"
  by (simp add: pinv_def)

lemma init_core_pool_inv:
  assumes "value_pool b = None" and "init_core n b = Some s0"
  shows "pool_inv s0"
proof -
  from assms(2) obtain nilp s2 oomp s4 where
    a1: "alloc_value n (value_pool_init b) = Some (Some nilp, s2)"
    and a2: "alloc_value n ((set_obj nilp NilCell s2)
                \<lparr>nil_val := nilp, globals_tree := nilp, this_val := nilp,
                 lexical_bindings := nilp\<rparr>) = Some (Some oomp, s4)"
    and e: "s0 = push_op nilp (push_op nilp ((set_obj oomp (Error out_of_memory nilp) s4)
                \<lparr>oom_val := oomp, string_buffer := nilp, macros := nilp\<rparr>))"
    by (auto simp: init_core_def Let_def split: option.splits prod.splits)
  from alloc_value_count[OF pinv_init[OF assms(1)] a1] obtain ys where
    y: "pinv s2 ys" "alive (value_pool_data s2 nilp)" by auto
  have "pinv (set_obj nilp NilCell s2) ys" using y by (rule set_obj_alive_pinv)
  then have "pinv ((set_obj nilp NilCell s2)
                \<lparr>nil_val := nilp, globals_tree := nilp, this_val := nilp,
                 lexical_bindings := nilp\<rparr>) ys" by (simp add: pinv_def)
  from alloc_value_count[OF this a2] obtain zs where
    z: "pinv s4 zs" "alive (value_pool_data s4 oomp)" by auto
  have "pinv (set_obj oomp (Error out_of_memory nilp) s4) zs" using z by (rule set_obj_alive_pinv)
  then have "pinv s0 zs" unfolding e by (simp add: pinv_def push_op_def)
  then show ?thesis unfolding pool_inv_iff by blast
qed

section \<open>C2: pool conservation\<close>

text \<open>
  Claim C2, first the part that does not hold. The built-in \<open>gc\<close> returns the number of cells
  the collector freed in a fresh integer cell, which it allocates after the collection. Right
  after the first part of \<open>init\<close> nothing is garbage: the free list has 8998 cells before the
  built-in runs and 8997 after it, so running \<open>gc\<close> has decreased the number of free cells.
\<close>

theorem gc_primitive_takes_a_cell:
  "init_core 10 (boot 8) = Some (initial_state 8) \<and>
   free_count (initial_state 8) = Some 8998 \<and>
   map_option (free_count \<circ> snd) (native_gc 10 0 (initial_state 8)) = Some (Some 8997)"
  by (simp only: init_core_boot free_count_initial native_gc_initial)

text \<open>
  Claim C2 as it holds. Take any state \<open>init\<close> has set up (\<open>value_pool_init\<close> run on the
  zeroed pool, then the nil cell and the OOM sentinel allocated) and any program over the
  pool from there: constructors, collections, the built-in \<open>gc\<close>, writes to live cells,
  changes of the roots. At the point the program has reached, the free list ends, holds no
  cell twice, and holds exactly the cells of the pool that are not alive, so no cell is both
  free and alive and the free cells and the alive cells together are \<open>VALUE_POOL_SIZE\<close>. From
  there an allocation that finds the free list non-empty takes its head, which is then alive,
  and leaves the rest as the free list; a collection that reports \<open>c\<close> cells freed leaves a
  free list longer by exactly \<open>c\<close>; and the built-in \<open>gc\<close> leaves a free list at most one cell
  shorter (the cell of its result).
\<close>

theorem pool_conservation:
  assumes "value_pool b = None" and "init_core n b = Some s0" and "exec_ops n ops s0 = Some s"
  shows "\<exists>xs. free_cells s = Some xs \<and> distinct xs \<and>
           (\<forall>i < VALUE_POOL_SIZE. (i \<in> set xs) = (\<not> alive (value_pool_data s i))) \<and>
           length xs + live_count s = VALUE_POOL_SIZE \<and>
           (\<forall>r s'. xs \<noteq> [] \<and> alloc_value n s = Some (r, s') \<longrightarrow>
              r = Some (hd xs) \<and> alive (value_pool_data s' (hd xs)) \<and> free_cells s' = Some (tl xs)) \<and>
           (\<forall>c s'. run_gc n s = Some (c, s') \<longrightarrow>
              (\<exists>ys. free_cells s' = Some ys \<and> length ys = length xs + c)) \<and>
           (\<forall>argc v s'. native_gc n argc s = Some (v, s') \<longrightarrow>
              (\<exists>ys. free_cells s' = Some ys \<and> length xs \<le> length ys + 1))"
proof -
  have "pool_inv s"
    using init_core_pool_inv[OF assms(1,2)] assms(3) by (rule exec_ops_pool_inv)
  then obtain xs where p: "pinv s xs" unfolding pool_inv_iff by blast
  have f: "free_cells s = Some xs" using p by (rule pinv_free_cells)
  have d: "distinct xs" using p by (simp add: pinv_def)
  have m: "\<forall>i < VALUE_POOL_SIZE. (i \<in> set xs) = (\<not> alive (value_pool_data s i))"
    using p by (auto simp: pinv_def)
  have c: "length xs + live_count s = VALUE_POOL_SIZE" using p by (rule pinv_count)
  have a: "\<forall>r s'. xs \<noteq> [] \<and> alloc_value n s = Some (r, s') \<longrightarrow>
              r = Some (hd xs) \<and> alive (value_pool_data s' (hd xs)) \<and> free_cells s' = Some (tl xs)"
  proof (intro allI impI)
    fix r s' assume h: "xs \<noteq> [] \<and> alloc_value n s = Some (r, s')"
    then obtain x xs' where e: "xs = x # xs'" by (cases xs) auto
    from alloc_value_nonempty[OF p[unfolded e], of n] h
    have "r = Some x" "pinv s' xs'" "alive (value_pool_data s' x)" by auto
    then show "r = Some (hd xs) \<and> alive (value_pool_data s' (hd xs)) \<and> free_cells s' = Some (tl xs)"
      using e pinv_free_cells by simp
  qed
  have g: "\<forall>c s'. run_gc n s = Some (c, s') \<longrightarrow>
              (\<exists>ys. free_cells s' = Some ys \<and> length ys = length xs + c)"
  proof (intro allI impI)
    fix c s' assume "run_gc n s = Some (c, s')"
    from run_gc_pinv[OF p this] obtain ys where "pinv s' ys" "length ys = length xs + c" by blast
    then show "\<exists>ys. free_cells s' = Some ys \<and> length ys = length xs + c"
      using pinv_free_cells by blast
  qed
  have b: "\<forall>argc v s'. native_gc n argc s = Some (v, s') \<longrightarrow>
              (\<exists>ys. free_cells s' = Some ys \<and> length xs \<le> length ys + 1)"
  proof (intro allI impI)
    fix argc v s' assume "native_gc n argc s = Some (v, s')"
    then obtain c s1 where r: "run_gc n s = Some (c, s1)"
      and k: "construct n (Integer (word_of_nat c)) s1 = Some (v, s')"
      by (auto simp: native_gc_def make_integer_def split: option.splits)
    from run_gc_pinv[OF p r] obtain ys where ys: "pinv s1 ys" "length ys = length xs + c" by blast
    from construct_count[OF ys(1) k] obtain zs where "pinv s' zs" "length ys \<le> length zs + 1"
      by blast
    then show "\<exists>ys. free_cells s' = Some ys \<and> length xs \<le> length ys + 1"
      using ys(2) pinv_free_cells by (intro exI[of _ zs]) simp
  qed
  show ?thesis using f d m c a g b by blast
qed

theorem pool_conservation_witness:
  "\<exists>s xs. exec_ops 10 [Op_gc_primitive] (initial_state 8) = Some s \<and>
     free_cells s = Some xs \<and> length xs = 8997 \<and> length xs + live_count s = VALUE_POOL_SIZE"
proof -
  from native_gc_initial[of 8] obtain v s where
    s: "native_gc 10 0 (initial_state 8) = Some (v, s)" "free_count s = Some 8997"
    by (cases "native_gc 10 0 (initial_state 8)") auto
  then have e: "exec_ops 10 [Op_gc_primitive] (initial_state 8) = Some s" by simp
  have "value_pool (boot 8) = None" by (simp add: boot_def)
  from pool_conservation[OF this init_core_boot e] obtain xs where
    "free_cells s = Some xs" "length xs + live_count s = VALUE_POOL_SIZE" by blast
  then show ?thesis using e s(2) by (auto simp: free_count_def)
qed











section \<open>C9: funcall restores the caller's context\<close>

text \<open>
  Claim C9. Whatever the callee is and does (a native function, an interpreted one, a
  bytecode one, with any behaviour of the nested \<open>eval\<close> and \<open>vm_execute\<close>), when
  \<open>funcall\<close> returns, \<open>this\<close>, the lexical bindings, the arguments-break location and the
  current argument count are the ones of the state it was called in. On a value that is not
  a function \<open>funcall\<close> does what \<open>make_error(value_not_callable, nil)\<close> followed by a push
  does, and on a function called with more arguments than the operand stack holds what
  popping the arguments and pushing \<open>make_error(invalid_argc, fn)\<close> does; both with the four
  fields restored.
\<close>

theorem funcall_restores_context:
  "(\<forall>s'. funcall n env fn argc s = Some s' \<longrightarrow>
      this_val s' = this_val s \<and> lexical_bindings s' = lexical_bindings s \<and>
      arguments_break_loc s' = arguments_break_loc s \<and>
      current_fn_argc s' = current_fn_argc s) \<and>
   (type_at s fn \<noteq> T_function \<longrightarrow>
      funcall n env fn argc s =
        map_option
          (\<lambda>r. (push_op (fst r) (snd r))
                  \<lparr>this_val := this_val s, lexical_bindings := lexical_bindings s,
                   arguments_break_loc := arguments_break_loc s,
                   current_fn_argc := current_fn_argc s\<rparr>)
          (make_error n value_not_callable (nil_val s) s)) \<and>
   (type_at s fn = T_function \<and> length (operand_stack s) < argc \<longrightarrow>
      funcall n env fn argc s =
        map_option
          (\<lambda>r. (push_op (fst r) (snd r))
                  \<lparr>this_val := this_val s, lexical_bindings := lexical_bindings s,
                   arguments_break_loc := arguments_break_loc s,
                   current_fn_argc := current_fn_argc s\<rparr>)
          (make_error n invalid_argc fn (pop_args argc s)))"
proof (intro conjI allI impI)
  fix s' assume "funcall n env fn argc s = Some s'"
  then obtain s1 where
    "s' = s1\<lparr>this_val := this_val s, lexical_bindings := lexical_bindings s,
             arguments_break_loc := arguments_break_loc s,
             current_fn_argc := current_fn_argc s\<rparr>"
    by (auto simp: funcall_def Let_def split: option.splits)
  then show "this_val s' = this_val s" "lexical_bindings s' = lexical_bindings s"
    "arguments_break_loc s' = arguments_break_loc s" "current_fn_argc s' = current_fn_argc s"
    by simp_all
next
  assume "type_at s fn \<noteq> T_function"
  then show "funcall n env fn argc s =
        map_option
          (\<lambda>r. (push_op (fst r) (snd r))
                  \<lparr>this_val := this_val s, lexical_bindings := lexical_bindings s,
                   arguments_break_loc := arguments_break_loc s,
                   current_fn_argc := current_fn_argc s\<rparr>)
          (make_error n value_not_callable (nil_val s) s)"
    by (cases "make_error n value_not_callable (nil_val s) s")
       (auto simp: funcall_def funcall_dispatch_def Let_def)
next
  assume "type_at s fn = T_function \<and> length (operand_stack s) < argc"
  then show "funcall n env fn argc s =
        map_option
          (\<lambda>r. (push_op (fst r) (snd r))
                  \<lparr>this_val := this_val s, lexical_bindings := lexical_bindings s,
                   arguments_break_loc := arguments_break_loc s,
                   current_fn_argc := current_fn_argc s\<rparr>)
          (make_error n invalid_argc fn (pop_args argc s))"
    by (cases "make_error n invalid_argc fn (pop_args argc s)")
       (auto simp: funcall_def funcall_dispatch_def Let_def)
qed

theorem funcall_restores_context_witness:
  "\<exists>s'. funcall 1 const_env 8997 0 fn_state = Some s' \<and>
     operand_stack s' = [8999, 8999, 8997, 8999] \<and>
     lexical_bindings s' = 8999 \<and> this_val s' = 8999 \<and>
     arguments_break_loc s' = 0 \<and> current_fn_argc s' = 0"
proof -
  have t: "type_at fn_state 8997 = T_function"
    by (simp add: fn_state_def type_at_def live_def)
  have o: "obj (value_pool_data fn_state 8997) = Function_lisp 8999 8998"
    by (simp add: fn_state_def live_def)
  have f: "nil_val fn_state = 8999" "operand_stack fn_state = [8999, 8999, 8997]"
    "lexical_bindings fn_state = 8999" "this_val fn_state = 8999"
    "arguments_break_loc fn_state = 0" "current_fn_argc fn_state = 0"
    by (simp_all add: fn_state_def initial_state_def)
  have d: "funcall_dispatch 1 const_env 8997 0 fn_state =
             Some (push_op 8999 (pop_op (push_op 8999 (fn_state\<lparr>lexical_bindings := 8998\<rparr>))))"
    by (simp add: funcall_dispatch_def t o f Let_def push_op_def pop_op_def get_op0_def
        OPERAND_STACK_SIZE_def)
  then obtain s' where r: "funcall 1 const_env 8997 0 fn_state = Some s'"
    and st: "operand_stack s' = [8999, 8999, 8997, 8999]"
    by (simp add: funcall_def Let_def push_op_def pop_op_def f OPERAND_STACK_SIZE_def)
  from funcall_restores_context[of 1 const_env 8997 0 fn_state] r
  have "this_val s' = this_val fn_state \<and> lexical_bindings s' = lexical_bindings fn_state \<and>
        arguments_break_loc s' = arguments_break_loc fn_state \<and>
        current_fn_argc s' = current_fn_argc fn_state" by blast
  then show ?thesis using r st f by simp
qed

section \<open>C8: eval gives an error without context the evaluated form\<close>

lemma eval_result_context:
  assumes r: "get_op0 s = Some result"
    and e: "obj (value_pool_data s result) = Error c ctx"
    and len: "length (operand_stack s) \<le> OPERAND_STACK_SIZE"
  shows "\<exists>s'. eval_result code s = Some s' \<and> get_op0 s' = Some result \<and>
           obj (value_pool_data s' result) = Error c (if ctx = nil_val s then code else ctx) \<and>
           (\<forall>p. p \<noteq> result \<longrightarrow> value_pool_data s' p = value_pool_data s p) \<and>
           operand_stack s' = butlast (butlast (operand_stack s)) @ [result]"
proof -
  have ne: "operand_stack s \<noteq> []" using r by (auto simp: get_op0_def split: if_splits)
  then have l2: "length (butlast (butlast (operand_stack s))) < OPERAND_STACK_SIZE"
    using len by (cases "operand_stack s" rule: rev_cases) auto
  show ?thesis
    using r e l2
    by (auto simp: eval_result_def Let_def leave_def push_op_def pop_op_def set_obj_def get_op0_def)
qed

text \<open>
  Claim C8. Take a form \<open>code\<close> that is a cons and whose head is none of the special forms,
  so that \<open>eval\<close> evaluates the head and the arguments and calls \<open>funcall\<close>. If
  \<open>funcall\<close> returns with an error cell on top of the operand stack, then \<open>eval\<close> returns
  with that same cell on top of the stack, in place of the form and the result below it; the
  cell's context is \<open>code\<close> if it was nil when \<open>funcall\<close> returned, and is as it was
  otherwise; no other cell has changed.
\<close>

theorem eval_replaces_nil_context:
  assumes code: "obj (value_pool_data s code) = ConsCell form rest"
    and nsf: "special_form s form = Some None"
    and fn: "eval_call env form (push_op code (s\<lparr>interp_entry_count := interp_entry_count s + 1\<rparr>)) = Some s1"
      "get_op0 s1 = Some fn" "cdr s1 code = Some arg_list"
    and args: "eval_args n env arg_list 0 (pop_op s1) = Some (Inr (argc, s2))"
    and call: "funcall n env fn (argc mod 256) s2 = Some s3"
    and res: "get_op0 s3 = Some result" "obj (value_pool_data s3 result) = Error c ctx"
    and len: "length (operand_stack s3) \<le> OPERAND_STACK_SIZE"
  shows "\<exists>s'. eval n env code s = Some s' \<and> get_op0 s' = Some result \<and>
           obj (value_pool_data s' result) = Error c (if ctx = nil_val s3 then code else ctx) \<and>
           (\<forall>p. p \<noteq> result \<longrightarrow> value_pool_data s' p = value_pool_data s3 p) \<and>
           operand_stack s' = butlast (butlast (operand_stack s3)) @ [result]"
proof -
  let ?s0 = "push_op code (s\<lparr>interp_entry_count := interp_entry_count s + 1\<rparr>)"
  have p0: "value_pool_data ?s0 = value_pool_data s" "interns ?s0 = interns s"
    by (simp_all add: push_op_def)
  have sf: "special_form ?s0 form = Some None"
    using nsf unfolding special_form_def p0 .
  have "eval n env code s = eval_funcall n env code form rest ?s0"
    using code sf by (simp add: eval_def Let_def p0)
  also have "\<dots> = eval_result code s3"
    using fn args call by (simp add: eval_funcall_def)
  finally have "eval n env code s = eval_result code s3" .
  then show ?thesis using eval_result_context[OF res len, of code] by simp
qed

lemma construct_head:
  "value_pool s = Some v \<Longrightarrow> obj (value_pool_data s v) = HeapNode nx \<Longrightarrow>
   construct n x s = Some (v, set_obj v x (init_val v (s\<lparr>value_pool := nx\<rparr>)))"
  by (simp add: construct_def alloc_value_def value_pool_alloc_def)

theorem eval_replaces_nil_context_witness:
  "\<exists>s'. eval 1 const_env 8996 call_state = Some s' \<and>
     operand_stack s' = [8999, 8999, 8995] \<and>
     obj (value_pool_data s' 8995) = Error value_not_callable 8996"
proof -
  let ?s0 = "push_op 8996 (call_state\<lparr>interp_entry_count := interp_entry_count call_state + 1\<rparr>)"
  let ?s1 = "push_op 8997 (?s0\<lparr>interp_entry_count := interp_entry_count ?s0 + 1\<rparr>)"
  define s2 where "s2 = pop_op ?s1"
  define s3 where "s3 = set_obj 8995 (Error value_not_callable 8999) (init_val 8995 (s2\<lparr>value_pool := Some 8994\<rparr>))"
  define s4 where "s4 = (push_op 8995 s3)
               \<lparr>this_val := this_val s2, lexical_bindings := lexical_bindings s2,
                arguments_break_loc := arguments_break_loc s2,
                current_fn_argc := current_fn_argc s2\<rparr>"
  have f: "operand_stack call_state = [8999, 8999]" "nil_val call_state = 8999"
    "value_pool call_state = Some 8995"
    by (simp_all add: call_state_def initial_state_def)
  have pd: "value_pool_data call_state =
              initial_pool(8997 := live (Integer 5), 8996 := live (ConsCell 8997 8999))"
    by (simp add: call_state_def)
  have code: "obj (value_pool_data call_state 8996) = ConsCell 8997 8999"
    by (simp add: pd live_def)
  have nsf: "special_form call_state 8997 = Some None"
    by (simp add: special_form_def pd live_def)
  have e1: "eval_call const_env 8997 ?s0 = Some ?s1" by (simp add: const_env_def)
  have st1: "operand_stack ?s1 = [8999, 8999, 8996, 8997]"
    by (simp add: push_op_def f OPERAND_STACK_SIZE_def)
  have g1: "get_op0 ?s1 = Some 8997" by (simp add: get_op0_def st1)
  have pd1: "value_pool_data ?s1 = value_pool_data call_state" by (simp add: push_op_def)
  have c1: "cdr ?s1 8996 = Some 8999" by (simp add: cdr_def pd1 pd live_def)
  have n2: "nil_val s2 = 8999" by (simp add: s2_def pop_op_def push_op_def f)
  have st2: "operand_stack s2 = [8999, 8999, 8996]" by (simp add: s2_def pop_op_def st1)
  have pd2: "value_pool_data s2 = value_pool_data call_state" by (simp add: s2_def pop_op_def pd1)
  have vp2: "value_pool s2 = Some 8995" by (simp add: s2_def pop_op_def push_op_def f)
  have a: "eval_args 1 const_env 8999 0 (pop_op ?s1) = Some (Inr (0, s2))"
    unfolding s2_def[symmetric] by (simp add: n2)
  have t2: "type_at s2 8997 \<noteq> T_function" by (simp add: type_at_def pd2 pd live_def)
  have ip: "obj (initial_pool 8995) = HeapNode (Some 8994)"
    by (simp add: initial_pool_def free_cell_def)
  have o2: "obj (value_pool_data s2 8995) = HeapNode (Some 8994)"
    unfolding pd2 pd by (simp add: ip)
  have me: "make_error 1 value_not_callable 8999 s2 = Some (8995, s3)"
    unfolding make_error_def s3_def by (rule construct_head[OF vp2 o2])
  have o3: "obj (value_pool_data s3 8995) = Error value_not_callable 8999"
    by (simp add: s3_def set_obj_def)
  have st3: "operand_stack s3 = [8999, 8999, 8996]"
    using st2 by (simp add: s3_def set_obj_def init_val_def)
  have n3: "nil_val s3 = 8999" using n2 by (simp add: s3_def set_obj_def init_val_def)
  have "funcall 1 const_env 8997 0 s2 =
          map_option
            (\<lambda>r. (push_op (fst r) (snd r))
                  \<lparr>this_val := this_val s2, lexical_bindings := lexical_bindings s2,
                   arguments_break_loc := arguments_break_loc s2,
                   current_fn_argc := current_fn_argc s2\<rparr>)
            (make_error 1 value_not_callable (nil_val s2) s2)"
    using funcall_restores_context[of 1 const_env 8997 0 s2] t2 by blast
  then have "funcall 1 const_env 8997 0 s2 = Some s4"
    unfolding n2 me s4_def by (simp only: option.map fst_conv snd_conv)
  then have fc: "funcall 1 const_env 8997 (0 mod 256) s2 = Some s4"
    by (simp only: mod_0)
  have st4: "operand_stack s4 = [8999, 8999, 8996, 8995]"
    by (simp add: s4_def push_op_def st3 OPERAND_STACK_SIZE_def)
  have g4: "get_op0 s4 = Some 8995" by (simp add: get_op0_def st4)
  have o4: "obj (value_pool_data s4 8995) = Error value_not_callable 8999"
    by (simp add: s4_def push_op_def o3)
  have n4: "nil_val s4 = 8999" by (simp add: s4_def push_op_def n3)
  have l4: "length (operand_stack s4) \<le> OPERAND_STACK_SIZE"
    by (simp add: st4 OPERAND_STACK_SIZE_def)
  from eval_replaces_nil_context[OF code nsf e1 g1 c1 a fc g4 o4 l4]
  show ?thesis by (auto simp add: n4 st4)
qed

lemma pop_op_eq: "pop_op s = s\<lparr>operand_stack := take (length (operand_stack s) - 1) (operand_stack s)\<rparr>"
  by (simp add: pop_op_def butlast_conv_take)

lemma pop_args_eq:
  "pop_args j s = s\<lparr>operand_stack := take (length (operand_stack s) - j) (operand_stack s)\<rparr>"
proof (induction j arbitrary: s)
  case 0
  then show ?case by simp
next
  case (Suc j)
  show ?case by (simp add: Suc pop_op_eq min_def)
qed

lemma fold_push_op:
  "length (operand_stack s) + length vs \<le> OPERAND_STACK_SIZE \<Longrightarrow>
   fold push_op vs s = s\<lparr>operand_stack := operand_stack s @ vs\<rparr>"
proof (induction vs arbitrary: s)
  case Nil
  then show ?case by simp
next
  case (Cons v vs)
  have "push_op v s = s\<lparr>operand_stack := operand_stack s @ [v]\<rparr>"
    using Cons.prems by (simp add: push_op_def)
  moreover have "length (operand_stack (s\<lparr>operand_stack := operand_stack s @ [v]\<rparr>)) + length vs
                   \<le> OPERAND_STACK_SIZE"
    using Cons.prems by simp
  ultimately show ?case using Cons.IH[of "s\<lparr>operand_stack := operand_stack s @ [v]\<rparr>"] by simp
qed

lemma unwind_frames_frame:
  assumes "value_pool_data s2 = value_pool_data s" and "lexical_bindings s2 = lexical_bindings s"
  shows "unwind_frames j s2 =
           map_option (\<lambda>u. s2\<lparr>lexical_bindings := lexical_bindings u\<rparr>) (unwind_frames j s)"
  using assms
proof (induction j arbitrary: s s2)
  case 0
  then show ?case by simp
next
  case (Suc j)
  show ?case
  proof (cases "cdr s (lexical_bindings s)")
    case None
    then have "cdr s2 (lexical_bindings s2) = None" using Suc.prems by (simp add: cdr_def)
    with None show ?thesis by (simp add: lexical_frame_pop_def)
  next
    case (Some d)
    then have c2: "cdr s2 (lexical_bindings s2) = Some d" using Suc.prems by (simp add: cdr_def)
    have "unwind_frames j (s2\<lparr>lexical_bindings := d\<rparr>) =
            map_option (\<lambda>u. (s2\<lparr>lexical_bindings := d\<rparr>)\<lparr>lexical_bindings := lexical_bindings u\<rparr>)
              (unwind_frames j (s\<lparr>lexical_bindings := d\<rparr>))"
      by (rule Suc.IH) (simp_all add: Suc.prems)
    then show ?thesis using Some c2 by (simp add: lexical_frame_pop_def)
  qed
qed

lemma unwind_scope_frame:
  assumes "value_pool_data s2 = value_pool_data s" and "lexical_bindings s2 = lexical_bindings s"
  shows "unwind_lexical_scope j s2 =
           map_option (\<lambda>u. s2\<lparr>lexical_bindings := lexical_bindings u\<rparr>) (unwind_lexical_scope j s)"
  using unwind_frames_frame[OF assms] by (simp add: unwind_lexical_scope_def)

lemma protect_fields:
  "value_pool_data (snd (protect v s)) = value_pool_data s"
  "lexical_bindings (snd (protect v s)) = lexical_bindings s"
  "operand_stack (snd (protect v s)) = operand_stack s"
  "this_val (snd (protect v s)) = this_val s"
  "current_fn_argc (snd (protect v s)) = current_fn_argc s"
  "arguments_break_loc (snd (protect v s)) = arguments_break_loc s"
  "nil_val (snd (protect v s)) = nil_val s"
  "fst (protect v s) = c_stack s"
  by (simp_all add: protect_def Protected_ctor_def Let_def split: option.splits)

lemma unprotect_fields:
  "value_pool_data (unprotect p s) = value_pool_data s"
  "lexical_bindings (unprotect p s) = lexical_bindings s"
  "operand_stack (unprotect p s) = operand_stack s"
  "this_val (unprotect p s) = this_val s"
  "current_fn_argc (unprotect p s) = current_fn_argc s"
  "arguments_break_loc (unprotect p s) = arguments_break_loc s"
  by (simp_all add: unprotect_def Protected_dtor_def Let_def split: option.splits)

lemma tail_args:
  assumes "operand_stack s = xs @ old @ new @ [fn]" and "length new = k"
  shows "map (\<lambda>i. get_op s (Suc i)) [0..<k] = rev new"
proof (rule nth_equalityI)
  show "length (map (\<lambda>i. get_op s (Suc i)) [0..<k]) = length (rev new)" using assms by simp
next
  fix i assume "i < length (map (\<lambda>i. get_op s (Suc i)) [0..<k])"
  then have i: "i < k" by simp
  have li: "length (operand_stack s) - 1 - Suc i = length (xs @ old) + (k - 1 - i)"
    using assms i by simp
  have lt: "Suc i < length (operand_stack s)" using assms i by simp
  have "get_op s (Suc i) = operand_stack s ! (length (xs @ old) + (k - 1 - i))"
    using lt li by (simp add: get_op_def)
  also have "\<dots> = ((xs @ old) @ (new @ [fn])) ! (length (xs @ old) + (k - 1 - i))"
    using assms(1) by simp
  also have "\<dots> = (new @ [fn]) ! (k - 1 - i)" by (rule nth_append_length_plus)
  also have "\<dots> = new ! (k - 1 - i)" using assms i by (simp add: nth_append)
  also have "\<dots> = rev new ! i" using assms i by (simp add: rev_nth)
  finally show "map (\<lambda>i. get_op s (Suc i)) [0..<k] ! i = rev new ! i" using i by simp
qed

lemma tail_call_k_tco:
  assumes stk: "operand_stack s = xs @ old @ new @ [fn]" and lo: "length old = k"
    and ln: "length new = k" and len: "length (operand_stack s) \<le> OPERAND_STACK_SIZE"
    and th: "fn = this_val s" and argc: "current_fn_argc s = k"
  shows "case unwind_lexical_scope nested s of
           None \<Rightarrow> tail_call_k n env start k pc nested s = None
         | Some u \<Rightarrow>
             (\<exists>s'. tail_call_k n env start k pc nested s = Some (Next start 0 s') \<and>
                   operand_stack s' = xs @ new \<and> lexical_bindings s' = lexical_bindings u \<and>
                   value_pool_data s' = value_pool_data s \<and> this_val s' = this_val s \<and>
                   current_fn_argc s' = current_fn_argc s \<and>
                   arguments_break_loc s' = arguments_break_loc s)"
proof -
  let ?s0 = "snd (protect (get_op s 0) s)"
  let ?s1 = "pop_args (Suc (2 * k)) ?s0"
  let ?s2 = "fold push_op new ?s1"
  have g0: "get_op s 0 = fn" using stk by (simp add: get_op_def)
  have st0: "operand_stack ?s0 = xs @ old @ new @ [fn]" using stk by (simp add: protect_fields)
  have args: "map (\<lambda>i. get_op ?s0 (Suc i)) [0..<k] = rev new"
    using st0 ln by (rule tail_args)
  have s1: "?s1 = ?s0\<lparr>operand_stack := xs\<rparr>"
    unfolding pop_args_eq st0 using lo ln by simp
  have "length (operand_stack ?s1) + length new \<le> OPERAND_STACK_SIZE"
    unfolding s1 using len stk ln by simp
  then have "?s2 = ?s1\<lparr>operand_stack := operand_stack ?s1 @ new\<rparr>" by (rule fold_push_op)
  then have s2: "?s2 = ?s0\<lparr>operand_stack := xs @ new\<rparr>" unfolding s1 by simp
  have u: "unwind_lexical_scope nested ?s2 =
             map_option (\<lambda>u. ?s2\<lparr>lexical_bindings := lexical_bindings u\<rparr>)
               (unwind_lexical_scope nested s)"
    unfolding s2 by (rule unwind_scope_frame) (simp_all add: protect_fields)
  have t: "tail_call_k n env start k pc nested s =
             (case unwind_lexical_scope nested ?s2 of
                None \<Rightarrow> None
              | Some s3 \<Rightarrow> Some (Next start 0 (unprotect (c_stack s) s3)))"
    unfolding tail_call_k_def Let_def args rev_rev_ident protect_fields(8)
    using th argc g0 by (simp add: protect_fields)
  show ?thesis
  proof (cases "unwind_lexical_scope nested s")
    case None
    then show ?thesis using t u by simp
  next
    case (Some w)
    then have "tail_call_k n env start k pc nested s =
                 Some (Next start 0 (unprotect (c_stack s) (?s2\<lparr>lexical_bindings := lexical_bindings w\<rparr>)))"
      using t u by simp
    moreover have "operand_stack (?s2\<lparr>lexical_bindings := lexical_bindings w\<rparr>) = xs @ new"
      "value_pool_data (?s2\<lparr>lexical_bindings := lexical_bindings w\<rparr>) = value_pool_data s"
      "this_val (?s2\<lparr>lexical_bindings := lexical_bindings w\<rparr>) = this_val s"
      "current_fn_argc (?s2\<lparr>lexical_bindings := lexical_bindings w\<rparr>) = current_fn_argc s"
      "arguments_break_loc (?s2\<lparr>lexical_bindings := lexical_bindings w\<rparr>) = arguments_break_loc s"
      unfolding s2 by (simp_all add: protect_fields)
    ultimately show ?thesis using Some by (simp add: unprotect_fields)
  qed
qed

lemma tail_call_k_other:
  assumes "get_op s 0 \<noteq> this_val s"
  shows "tail_call_k n env start k pc nested s = call_fn n env k pc nested s"
  using assms by (simp add: tail_call_k_def call_fn_def Let_def protect_fields)

lemma tail_call_k_spin:
  assumes "get_op s 0 = this_val s" and "current_fn_argc s \<noteq> k"
  shows "tail_call_k n env start k pc nested s = None"
  using assms by (simp add: tail_call_k_def Let_def protect_fields)

lemma tail_call_other:
  assumes "get_op s 0 \<noteq> this_val s \<or> (current_fn_argc s = argc \<and> 0 < argc)"
  shows "tail_call n env start argc pc nested s = call_fn n env argc pc nested s"
  using assms by (auto simp: tail_call_def call_fn_def Let_def protect_fields pop_op_def)

lemma tail_call_spin:
  assumes "get_op s 0 = this_val s" and "current_fn_argc s \<noteq> argc"
  shows "tail_call n env start argc pc nested s = None"
  using assms by (simp add: tail_call_def Let_def protect_fields pop_op_def)

lemma tail_call_0_tco:
  assumes stk: "operand_stack s = xs @ [fn]" and th: "fn = this_val s"
    and argc: "current_fn_argc s = 0"
  shows "case unwind_lexical_scope nested s of
           None \<Rightarrow> tail_call n env start 0 pc nested s = None
         | Some u \<Rightarrow>
             (\<exists>s'. tail_call n env start 0 pc nested s = Some (Next start 0 s') \<and>
                   operand_stack s' = xs \<and> lexical_bindings s' = lexical_bindings u \<and>
                   value_pool_data s' = value_pool_data s \<and> this_val s' = this_val s \<and>
                   current_fn_argc s' = current_fn_argc s \<and>
                   arguments_break_loc s' = arguments_break_loc s)"
proof -
  let ?s0 = "snd (protect (get_op s 0) s)"
  let ?s1 = "pop_op ?s0"
  have g0: "get_op s 0 = fn" using stk by (simp add: get_op_def)
  have s1: "?s1 = ?s0\<lparr>operand_stack := xs\<rparr>" using stk by (simp add: pop_op_def protect_fields)
  have u: "unwind_lexical_scope nested ?s1 =
             map_option (\<lambda>u. ?s1\<lparr>lexical_bindings := lexical_bindings u\<rparr>)
               (unwind_lexical_scope nested s)"
    unfolding s1 by (rule unwind_scope_frame) (simp_all add: protect_fields)
  have t: "tail_call n env start 0 pc nested s =
             (case unwind_lexical_scope nested ?s1 of
                None \<Rightarrow> None
              | Some s3 \<Rightarrow> Some (Next start 0 (unprotect (c_stack s) s3)))"
    unfolding tail_call_def Let_def protect_fields(8)
    using th argc g0 by (simp add: protect_fields pop_op_def)
  show ?thesis
  proof (cases "unwind_lexical_scope nested s")
    case None
    then show ?thesis using t u by simp
  next
    case (Some w)
    then have "tail_call n env start 0 pc nested s =
                 Some (Next start 0 (unprotect (c_stack s) (?s1\<lparr>lexical_bindings := lexical_bindings w\<rparr>)))"
      using t u by simp
    moreover have "operand_stack (?s1\<lparr>lexical_bindings := lexical_bindings w\<rparr>) = xs"
      "value_pool_data (?s1\<lparr>lexical_bindings := lexical_bindings w\<rparr>) = value_pool_data s"
      "this_val (?s1\<lparr>lexical_bindings := lexical_bindings w\<rparr>) = this_val s"
      "current_fn_argc (?s1\<lparr>lexical_bindings := lexical_bindings w\<rparr>) = current_fn_argc s"
      "arguments_break_loc (?s1\<lparr>lexical_bindings := lexical_bindings w\<rparr>) = arguments_break_loc s"
      unfolding s1 by (simp_all add: protect_fields)
    ultimately show ?thesis using Some by (simp add: unprotect_fields)
  qed
qed

lemma vm_step_calls:
  "vm_step n env cb start (TailCall argc) pc nested s = tail_call n env start argc pc nested s"
  "vm_step n env cb start TailCall1 pc nested s = tail_call_k n env start 1 pc nested s"
  "vm_step n env cb start TailCall2 pc nested s = tail_call_k n env start 2 pc nested s"
  "vm_step n env cb start TailCall3 pc nested s = tail_call_k n env start 3 pc nested s"
  "vm_step n env cb start (Funcall argc) pc nested s = call_fn n env argc pc nested s"
  "vm_step n env cb start Funcall1 pc nested s = call_fn n env 1 pc nested s"
  "vm_step n env cb start Funcall2 pc nested s = call_fn n env 2 pc nested s"
  "vm_step n env cb start Funcall3 pc nested s = call_fn n env 3 pc nested s"
  by (simp_all add: vm_step_def)

lemma vm_state_fields:
  "operand_stack vm_state = [8999, 8999, 8993, 8992, 8997]" "this_val vm_state = 8997"
  "current_fn_argc vm_state = 1" "nil_val vm_state = 8999" "lexical_bindings vm_state = 8999"
  "obj (value_pool_data vm_state 8997) = Function_bytecode 8996 8999"
  "obj (value_pool_data vm_state 8996) = ConsCell 8995 8994"
  "obj (value_pool_data vm_state 8995) = Integer 0"
  by (simp_all add: vm_state_def initial_state_def live_def)

lemma call_fn_vm_state:
  "\<exists>s'. call_fn n const_env 1 pc 0 (vm_state\<lparr>current_fn_argc := a\<rparr>) = Some (Next pc 0 s') \<and>
        operand_stack s' = [8999, 8999, 8993, 8999]"
proof -
  define s where "s = vm_state\<lparr>current_fn_argc := a\<rparr>"
  define s0 where "s0 = pop_op (snd (protect 8997 s))"
  define s1 where "s1 = s0\<lparr>arguments_break_loc := break_loc_of s0, current_fn_argc := Suc 0,
                           this_val := 8997, lexical_bindings := 8999\<rparr>"
  have f: "operand_stack s = [8999, 8999, 8993, 8992, 8997]" "nil_val s = 8999"
    "obj (value_pool_data s 8997) = Function_bytecode 8996 8999"
    "obj (value_pool_data s 8996) = ConsCell 8995 8994"
    "obj (value_pool_data s 8995) = Integer 0"
    by (simp_all add: s_def vm_state_fields)
  have g: "get_op s 0 = 8997" by (simp add: get_op_def f)
  have f0: "operand_stack s0 = [8999, 8999, 8993, 8992]" "nil_val s0 = 8999"
    "value_pool_data s0 = value_pool_data s"
    by (simp_all add: s0_def pop_op_def protect_fields f)
  have f1: "operand_stack s1 = [8999, 8999, 8993, 8992]" "nil_val s1 = 8999"
    "value_pool_data s1 = value_pool_data s"
    by (simp_all add: s1_def f0)
  have t: "type_at s0 8997 = T_function" by (simp add: type_at_def f0 f)
  have v: "vm_call const_env 8994 0 s1 = Some (push_op 8999 s1)"
    by (simp add: const_env_def f1)
  have p: "operand_stack (push_op 8999 s1) = [8999, 8999, 8993, 8992, 8999]"
    by (simp add: push_op_def f1 OPERAND_STACK_SIZE_def)
  define s3 where "s3 = push_op 8999 (pop_args (Suc 0) (pop_op (push_op 8999 s1)))"
  have d: "funcall_dispatch n const_env 8997 (Suc 0) s0 = Some s3"
    unfolding funcall_dispatch_def s3_def
    by (simp add: t f0 f f1 s1_def[symmetric] Let_def cdr_def car_def integer_value_def v
        get_op0_def p del: pop_args.simps)
  have o3: "operand_stack s3 = [8999, 8999, 8993, 8999]"
    unfolding s3_def by (simp add: pop_args_eq pop_op_eq push_op_def f1 OPERAND_STACK_SIZE_def
        del: pop_args.simps)
  define s2 where "s2 = s3\<lparr>this_val := this_val s0, lexical_bindings := lexical_bindings s0,
                           arguments_break_loc := arguments_break_loc s0,
                           current_fn_argc := current_fn_argc s0\<rparr>"
  have c: "funcall n const_env 8997 (Suc 0) s0 = Some s2"
    unfolding funcall_def Let_def d s2_def by simp
  have o: "operand_stack s2 = [8999, 8999, 8993, 8999]" unfolding s2_def using o3 by simp
  have "call_fn n const_env 1 pc 0 s = Some (Next pc 0 (unprotect (c_stack s) s2))"
    unfolding call_fn_def Let_def g protect_fields(8) s0_def[symmetric] by (simp add: c)
  then show ?thesis unfolding s_def using o by (simp add: unprotect_fields)
qed

section \<open>C4: tail calls in the VM\<close>

text \<open>
  Claim C4, first the part that does not hold. In the state \<open>vm_state\<close> the running function
  calls itself with one argument, as many as it was called with. The instruction
  \<open>TailCall\<close> with operand 1 does not restart the function: it does exactly what
  \<open>Funcall\<close> with operand 1 does, a nested \<open>funcall\<close> after which execution continues
  behind the instruction (at 2, not at the start offset 0), with the result pushed. And when
  the running function was called with two arguments, \<open>TailCall1\<close> on it never returns,
  where \<open>Funcall1\<close> does.
\<close>

theorem tail_call_not_optimised:
  "get_op vm_state 0 = this_val vm_state \<and> current_fn_argc vm_state = 1 \<and>
   vm_step 1000 const_env 8994 0 (TailCall 1) 2 0 vm_state =
     vm_step 1000 const_env 8994 0 (Funcall 1) 2 0 vm_state \<and>
   (\<exists>s'. vm_step 1000 const_env 8994 0 (TailCall 1) 2 0 vm_state = Some (Next 2 0 s') \<and>
         operand_stack s' = [8999, 8999, 8993, 8999]) \<and>
   vm_step 1000 const_env 8994 0 TailCall1 1 0 (vm_state\<lparr>current_fn_argc := 2\<rparr>) = None \<and>
   vm_step 1000 const_env 8994 0 Funcall1 1 0 (vm_state\<lparr>current_fn_argc := 2\<rparr>) \<noteq> None"
proof -
  have g: "get_op vm_state 0 = this_val vm_state"
    by (simp add: get_op_def vm_state_fields)
  have e: "vm_step 1000 const_env 8994 0 (TailCall 1) 2 0 vm_state =
             vm_step 1000 const_env 8994 0 (Funcall 1) 2 0 vm_state"
    unfolding vm_step_calls by (rule tail_call_other) (simp add: vm_state_fields)
  have "vm_state\<lparr>current_fn_argc := 1\<rparr> = vm_state"
    by (simp add: vm_state_def)
  with call_fn_vm_state[where n = 1000 and pc = 2 and a = 1]
  have "\<exists>s'. vm_step 1000 const_env 8994 0 (Funcall 1) 2 0 vm_state = Some (Next 2 0 s') \<and>
         operand_stack s' = [8999, 8999, 8993, 8999]"
    unfolding vm_step_calls by simp
  then have r: "\<exists>s'. vm_step 1000 const_env 8994 0 (TailCall 1) 2 0 vm_state = Some (Next 2 0 s') \<and>
         operand_stack s' = [8999, 8999, 8993, 8999]"
    unfolding e .
  have sp: "vm_step 1000 const_env 8994 0 TailCall1 1 0 (vm_state\<lparr>current_fn_argc := 2\<rparr>) = None"
    unfolding vm_step_calls
    by (rule tail_call_k_spin) (simp_all add: get_op_def vm_state_fields)
  have fc: "vm_step 1000 const_env 8994 0 Funcall1 1 0 (vm_state\<lparr>current_fn_argc := 2\<rparr>) \<noteq> None"
    unfolding vm_step_calls using call_fn_vm_state[where n = 1000 and pc = 1 and a = 2] by auto
  show ?thesis using g e r sp fc by (simp add: vm_state_fields)
qed

text \<open>
  Claim C4 as it holds, for one instruction of the VM executed in a state whose operand stack
  is within its capacity, with \<open>nested\<close> lexical frames opened since function entry.

  \<^item> \<open>TailCall1\<close>, \<open>TailCall2\<close>, \<open>TailCall3\<close> (\<open>k\<close> = 1, 2, 3) on the running function, when
    it was called with \<open>k\<close> arguments, and \<open>TailCall\<close> with operand 0 on the running function
    when it was called with none: the function, the \<open>k\<close> new arguments and the \<open>k\<close> values
    below them are taken off the stack and the new arguments are put back in their order,
    the lexical bindings are what popping \<open>nested\<close> frames leaves, execution continues at the
    start offset with no frame open; no cell, and neither \<open>this\<close>, the argument count nor the
    arguments-break location has changed. If the frames cannot be popped the step has no
    result: with fewer than \<open>nested\<close> frames in the chain of lexical bindings the source
    reads the cdr of a value that is not a cons.
  \<^item> Any of the four on a value that is not the running function, and \<open>TailCall\<close> with a
    positive operand on the running function called with that many arguments, do what the
    corresponding \<open>Funcall\<close> does.
  \<^item> Any of the four on the running function with another argument count than it was called
    with does not return.
\<close>

theorem tail_call_optimisation:
  assumes len: "length (operand_stack s) \<le> OPERAND_STACK_SIZE"
  shows
    "(\<forall>k xs old new. (k, inst) \<in> {(1, TailCall1), (2, TailCall2), (3, TailCall3)} \<and>
        operand_stack s = xs @ old @ new @ [this_val s] \<and> length old = k \<and> length new = k \<and>
        current_fn_argc s = k \<longrightarrow>
        (case unwind_lexical_scope nested s of
           None \<Rightarrow> vm_step n env cb start inst pc nested s = None
         | Some u \<Rightarrow>
             (\<exists>s'. vm_step n env cb start inst pc nested s = Some (Next start 0 s') \<and>
                   operand_stack s' = xs @ new \<and> lexical_bindings s' = lexical_bindings u \<and>
                   value_pool_data s' = value_pool_data s \<and> this_val s' = this_val s \<and>
                   current_fn_argc s' = current_fn_argc s \<and>
                   arguments_break_loc s' = arguments_break_loc s))) \<and>
     (\<forall>xs. operand_stack s = xs @ [this_val s] \<and> current_fn_argc s = 0 \<longrightarrow>
        (case unwind_lexical_scope nested s of
           None \<Rightarrow> vm_step n env cb start (TailCall 0) pc nested s = None
         | Some u \<Rightarrow>
             (\<exists>s'. vm_step n env cb start (TailCall 0) pc nested s = Some (Next start 0 s') \<and>
                   operand_stack s' = xs \<and> lexical_bindings s' = lexical_bindings u \<and>
                   value_pool_data s' = value_pool_data s \<and> this_val s' = this_val s \<and>
                   current_fn_argc s' = current_fn_argc s \<and>
                   arguments_break_loc s' = arguments_break_loc s))) \<and>
     (get_op s 0 \<noteq> this_val s \<or> (current_fn_argc s = argc \<and> 0 < argc) \<longrightarrow>
        vm_step n env cb start (TailCall argc) pc nested s =
        vm_step n env cb start (Funcall argc) pc nested s) \<and>
     (get_op s 0 \<noteq> this_val s \<longrightarrow>
        vm_step n env cb start TailCall1 pc nested s = vm_step n env cb start Funcall1 pc nested s \<and>
        vm_step n env cb start TailCall2 pc nested s = vm_step n env cb start Funcall2 pc nested s \<and>
        vm_step n env cb start TailCall3 pc nested s = vm_step n env cb start Funcall3 pc nested s) \<and>
     (get_op s 0 = this_val s \<longrightarrow>
        (current_fn_argc s \<noteq> argc \<longrightarrow> vm_step n env cb start (TailCall argc) pc nested s = None) \<and>
        (current_fn_argc s \<noteq> 1 \<longrightarrow> vm_step n env cb start TailCall1 pc nested s = None) \<and>
        (current_fn_argc s \<noteq> 2 \<longrightarrow> vm_step n env cb start TailCall2 pc nested s = None) \<and>
        (current_fn_argc s \<noteq> 3 \<longrightarrow> vm_step n env cb start TailCall3 pc nested s = None))"
proof (intro conjI allI impI)
  fix k xs old new
  assume h: "(k, inst) \<in> {(1, TailCall1), (2, TailCall2), (3, TailCall3)} \<and>
        operand_stack s = xs @ old @ new @ [this_val s] \<and> length old = k \<and> length new = k \<and>
        current_fn_argc s = k"
  then have e: "vm_step n env cb start inst pc nested s = tail_call_k n env start k pc nested s"
    by (auto simp: vm_step_calls)
  from h have "operand_stack s = xs @ old @ new @ [this_val s]" "length old = k" "length new = k"
    "current_fn_argc s = k" by simp_all
  from tail_call_k_tco[OF this(1,2,3) len refl this(4), where nested = nested and n = n
      and env = env and start = start and pc = pc]
  show "case unwind_lexical_scope nested s of
           None \<Rightarrow> vm_step n env cb start inst pc nested s = None
         | Some u \<Rightarrow>
             (\<exists>s'. vm_step n env cb start inst pc nested s = Some (Next start 0 s') \<and>
                   operand_stack s' = xs @ new \<and> lexical_bindings s' = lexical_bindings u \<and>
                   value_pool_data s' = value_pool_data s \<and> this_val s' = this_val s \<and>
                   current_fn_argc s' = current_fn_argc s \<and>
                   arguments_break_loc s' = arguments_break_loc s)"
    unfolding e .
next
  fix xs
  assume h: "operand_stack s = xs @ [this_val s] \<and> current_fn_argc s = 0"
  then have "operand_stack s = xs @ [this_val s]" "current_fn_argc s = 0" by simp_all
  from tail_call_0_tco[OF this(1) refl this(2), where nested = nested and n = n
      and env = env and start = start and pc = pc]
  show "case unwind_lexical_scope nested s of
           None \<Rightarrow> vm_step n env cb start (TailCall 0) pc nested s = None
         | Some u \<Rightarrow>
             (\<exists>s'. vm_step n env cb start (TailCall 0) pc nested s = Some (Next start 0 s') \<and>
                   operand_stack s' = xs \<and> lexical_bindings s' = lexical_bindings u \<and>
                   value_pool_data s' = value_pool_data s \<and> this_val s' = this_val s \<and>
                   current_fn_argc s' = current_fn_argc s \<and>
                   arguments_break_loc s' = arguments_break_loc s)"
    unfolding vm_step_calls .
next
  assume "get_op s 0 \<noteq> this_val s \<or> (current_fn_argc s = argc \<and> 0 < argc)"
  then show "vm_step n env cb start (TailCall argc) pc nested s =
             vm_step n env cb start (Funcall argc) pc nested s"
    unfolding vm_step_calls by (rule tail_call_other)
next
  assume h: "get_op s 0 \<noteq> this_val s"
  show "vm_step n env cb start TailCall1 pc nested s = vm_step n env cb start Funcall1 pc nested s"
    unfolding vm_step_calls using h by (rule tail_call_k_other)
  show "vm_step n env cb start TailCall2 pc nested s = vm_step n env cb start Funcall2 pc nested s"
    unfolding vm_step_calls using h by (rule tail_call_k_other)
  show "vm_step n env cb start TailCall3 pc nested s = vm_step n env cb start Funcall3 pc nested s"
    unfolding vm_step_calls using h by (rule tail_call_k_other)
next
  assume h: "get_op s 0 = this_val s"
  { assume "current_fn_argc s \<noteq> argc"
    with h show "vm_step n env cb start (TailCall argc) pc nested s = None"
      unfolding vm_step_calls by (rule tail_call_spin) }
  { assume "current_fn_argc s \<noteq> 1"
    with h show "vm_step n env cb start TailCall1 pc nested s = None"
      unfolding vm_step_calls by (rule tail_call_k_spin) }
  { assume "current_fn_argc s \<noteq> 2"
    with h show "vm_step n env cb start TailCall2 pc nested s = None"
      unfolding vm_step_calls by (rule tail_call_k_spin) }
  { assume "current_fn_argc s \<noteq> 3"
    with h show "vm_step n env cb start TailCall3 pc nested s = None"
      unfolding vm_step_calls by (rule tail_call_k_spin) }
qed

theorem tail_call_optimisation_witness:
  "\<exists>s'. vm_step 1000 const_env 8994 0 TailCall1 1 0 vm_state = Some (Next 0 0 s') \<and>
     operand_stack s' = [8999, 8999, 8992] \<and> lexical_bindings s' = 8999 \<and>
     this_val s' = 8997 \<and> current_fn_argc s' = 1"
proof -
  have l: "length (operand_stack vm_state) \<le> OPERAND_STACK_SIZE"
    by (simp add: vm_state_fields OPERAND_STACK_SIZE_def)
  have u: "unwind_lexical_scope 0 vm_state = Some vm_state"
    by (simp add: unwind_lexical_scope_def)
  have "(1, TailCall1) \<in> {(1, TailCall1), (2, TailCall2), (3, TailCall3)} \<and>
        operand_stack vm_state = [8999, 8999] @ [8993] @ [8992] @ [this_val vm_state] \<and>
        length [8993::nat] = 1 \<and> length [8992::nat] = 1 \<and> current_fn_argc vm_state = 1"
    by (simp add: vm_state_fields)
  with tail_call_optimisation[OF l, where inst = TailCall1 and nested = 0 and n = 1000
      and env = const_env and cb = 8994 and start = 0 and pc = 1]
  have "case unwind_lexical_scope 0 vm_state of
           None \<Rightarrow> vm_step 1000 const_env 8994 0 TailCall1 1 0 vm_state = None
         | Some u \<Rightarrow>
             (\<exists>s'. vm_step 1000 const_env 8994 0 TailCall1 1 0 vm_state = Some (Next 0 0 s') \<and>
                   operand_stack s' = [8999, 8999] @ [8992] \<and> lexical_bindings s' = lexical_bindings u \<and>
                   value_pool_data s' = value_pool_data vm_state \<and> this_val s' = this_val vm_state \<and>
                   current_fn_argc s' = current_fn_argc vm_state \<and>
                   arguments_break_loc s' = arguments_break_loc vm_state)"
    by blast
  then show ?thesis unfolding u by (auto simp: vm_state_fields)
qed

declare intern_search.simps [simp del]













section \<open>C7: interning a string twice\<close>
















section \<open>C5: set, get and unbind on the globals tree\<close>







lemma sweep_cell_other:
  "j \<noteq> i \<Longrightarrow> value_pool_data (snd (sweep_cell i (c, s))) j = value_pool_data s j"
  by (simp add: sweep_cell_def Let_def value_pool_free_def invoke_finalizer_def split: Obj.splits)


lemma fold_sweep_other:
  "p \<notin> set is \<Longrightarrow> value_pool_data (snd (fold sweep_cell is (c, s))) p = value_pool_data s p"
proof (induction "is" arbitrary: c s)
  case Nil
  then show ?case by simp
next
  case (Cons i "is")
  obtain c1 s1 where e: "sweep_cell i (c, s) = (c1, s1)" by (cases "sweep_cell i (c, s)")
  have "value_pool_data s1 p = value_pool_data s p"
    using sweep_cell_other[of p i c s] Cons.prems e by simp
  moreover have "value_pool_data (snd (fold sweep_cell is (c1, s1))) p = value_pool_data s1 p"
    using Cons.IH[of c1 s1] Cons.prems by simp
  ultimately show ?case using e by simp
qed


























section \<open>C3: allocation, the single collection and the OOM sentinel\<close>




lemma gc_mark_two_roots:
  assumes f: "nil_val s = 8999" "oom_val s = 8998" "lexical_bindings s = 8999" "macros s = 8999"
      "operand_stack s = [8999, 8999]" "globals_tree s = 8999" "this_val s = 8999"
      "protected_values s = None"
    and c1: "value_pool_data s 8999 = \<lparr>alive = True, mark_bit = False, obj = NilCell\<rparr>"
    and c2: "value_pool_data s 8998 = \<lparr>alive = True, mark_bit = False, obj = Error out_of_memory 8999\<rparr>"
  shows "gc_mark (Suc (Suc n)) s =
           Some (s\<lparr>value_pool_data := set_mark 8998 (set_mark 8999 (value_pool_data s))\<rparr>)"
proof -
  let ?h = "value_pool_data s"
  let ?h1 = "set_mark 8999 ?h"
  let ?h2 = "set_mark 8998 ?h1"
  let ?s1 = "s\<lparr>value_pool_data := ?h1\<rparr>"
  let ?s2 = "s\<lparr>value_pool_data := ?h2\<rparr>"
  let ?n = "Suc (Suc n)"
  have m1: "gc_mark_value ?n 8999 ?h = Some ?h1" by (simp add: c1)
  have m2: "gc_mark_value ?n 8998 ?h1 = Some ?h2" by (simp add: c1 c2 set_mark_def)
  have s1: "mark_value ?n 8999 s = Some ?s1" by (simp only: mark_value_def m1) simp
  have s2: "mark_value ?n 8998 ?s1 = Some ?s2" by (simp add: mark_value_def m2 del: gc_mark_value.simps)
  have mk: "mark_bit (value_pool_data ?s2 8999)" by (simp add: set_mark_def)
  have s3: "mark_value ?n 8999 ?s2 = Some ?s2" using mk by (rule mark_value_marked)
  have s5: "mark_stack ?n [8999, 8999] ?s2 = Some ?s2" by (simp add: s3 del: gc_mark_value.simps)
  have s6: "globals_tree_traverse ?n 8999 (mark_tree_node ?n) ?s2 = Some ?s2"
    by (simp add: globals_tree_traverse_def f)
  have s8: "mark_protected ?n None ?s2 = Some ?s2" by simp
  show ?thesis
    unfolding gc_mark_def
    by (simp add: f s1 s2 s3 s5 s6 s8 del: gc_mark_value.simps mark_protected.simps mark_stack.simps)
qed

lemma sweep_cell_freed:
  "alive (value_pool_data s i) \<Longrightarrow> \<not> mark_bit (value_pool_data s i) \<Longrightarrow>
   \<not> alive (value_pool_data (snd (sweep_cell i (c, s))) i)"
  by (simp add: sweep_cell_def Let_def value_pool_free_def invoke_finalizer_def free_cell_def
      split: Obj.splits)

lemma fold_sweep_freed:
  assumes "distinct is" and "p \<in> set is" and "alive (value_pool_data s p)"
    and "\<not> mark_bit (value_pool_data s p)"
  shows "\<not> alive (value_pool_data (snd (fold sweep_cell is (c, s))) p)"
  using assms
proof (induction "is" arbitrary: c s)
  case Nil
  then show ?case by simp
next
  case (Cons i "is")
  obtain c1 s1 where e: "sweep_cell i (c, s) = (c1, s1)" by (cases "sweep_cell i (c, s)")
  show ?case
  proof (cases "i = p")
    case True
    have "\<not> alive (value_pool_data s1 p)"
      using sweep_cell_freed[of s p c] Cons.prems True e by simp
    moreover have "value_pool_data (snd (fold sweep_cell is (c1, s1))) p = value_pool_data s1 p"
      using fold_sweep_other[of p "is" c1 s1] Cons.prems True by simp
    ultimately show ?thesis using e by simp
  next
    case False
    have "value_pool_data s1 p = value_pool_data s p"
      using sweep_cell_other[of p i c s] False e by simp
    then show ?thesis using Cons.IH[of s1 c1] Cons.prems e False by simp
  qed
qed

lemma gc_sweep_freed:
  assumes "p < VALUE_POOL_SIZE" and "alive (value_pool_data s p)"
    and "\<not> mark_bit (value_pool_data s p)"
  shows "\<not> alive (value_pool_data (snd (gc_sweep s)) p)"
proof -
  let ?s0 = "if \<not> mark_bit (value_pool_data s (string_buffer s)) then s\<lparr>string_buffer := nil_val s\<rparr> else s"
  have p0: "value_pool_data ?s0 = value_pool_data s" by simp
  have a: "alive (value_pool_data ?s0 p)" "\<not> mark_bit (value_pool_data ?s0 p)"
    unfolding p0 using assms by simp_all
  have d: "distinct [0..<VALUE_POOL_SIZE]" by simp
  have m: "p \<in> set [0..<VALUE_POOL_SIZE]" using assms(1) by simp
  show ?thesis unfolding gc_sweep_def Let_def by (rule fold_sweep_freed[OF d m a])
qed

section \<open>C1: the list of protected roots\<close>

text \<open>
  Claim C1. \<open>ProtectedBase::ProtectedBase\<close> reads \<open>__protected_values\<close> into the local \<open>plist\<close>
  and ends with \<open>plist = this\<close>, an assignment to the local; no statement of the program
  writes \<open>__protected_values\<close>. So \<open>protect\<close> (the construction of a \<open>Protected\<close>) leaves
  the head of the list as it was, and from the state \<open>init\<close> leaves the head is empty for
  ever. The trace: after \<open>init\<close>, \<open>make_cons(nil, nil)\<close> returns cell 8997; a \<open>Protected\<close>
  is constructed on it and is still in scope; the head of the list is empty; the next
  collection finds the cell unmarked and frees it, while the \<open>Protected\<close> still refers to it.
\<close>

theorem protected_cell_is_collected:
  "(\<forall>v s. protected_values (snd (protect v s)) = protected_values s) \<and>
   (\<exists>s1 p s2 c s3.
      make_cons 9000 8999 8999 (initial_state 0) = Some (8997, s1) \<and>
      protect 8997 s1 = (p, s2) \<and> p_val (protected_mem s2 p) = 8997 \<and>
      protected_values s2 = None \<and> alive (value_pool_data s2 8997) \<and>
      run_gc 9000 s2 = Some (c, s3) \<and> p_val (protected_mem s3 p) = 8997 \<and>
      \<not> alive (value_pool_data s3 8997))"
proof (intro conjI allI)
  fix v s
  show "protected_values (snd (protect v s)) = protected_values s"
    by (simp add: protect_def Protected_ctor_def Let_def split: option.splits)
next
  define s1 where "s1 = set_obj 8997 (ConsCell 8999 8999)
                          (init_val 8997 ((initial_state 0)\<lparr>value_pool := Some 8996\<rparr>))"
  define s2 where "s2 = snd (protect 8997 s1)"
  have hd: "value_pool (initial_state 0) = Some 8997"
    "obj (value_pool_data (initial_state 0) 8997) = HeapNode (Some 8996)"
    by (simp_all add: initial_state_def initial_pool_def free_cell_def)
  have mc: "make_cons 9000 8999 8999 (initial_state 0) = Some (8997, s1)"
    unfolding make_cons_def s1_def by (rule construct_head[OF hd])
  have pr: "protect 8997 s1 = (c_stack s1, s2)" by (simp add: s2_def protect_def)
  have f1: "nil_val s1 = 8999" "oom_val s1 = 8998" "lexical_bindings s1 = 8999" "macros s1 = 8999"
      "operand_stack s1 = [8999, 8999]" "globals_tree s1 = 8999" "this_val s1 = 8999"
      "protected_values s1 = None"
    by (simp_all add: s1_def set_obj_def init_val_def initial_state_def)
  have pd: "value_pool_data s2 = value_pool_data s1"
    by (simp add: s2_def protect_def Protected_ctor_def Let_def split: option.splits)
  have f: "nil_val s2 = 8999" "oom_val s2 = 8998" "lexical_bindings s2 = 8999" "macros s2 = 8999"
      "operand_stack s2 = [8999, 8999]" "globals_tree s2 = 8999" "this_val s2 = 8999"
      "protected_values s2 = None"
    using f1 by (simp_all add: s2_def protect_def Protected_ctor_def Let_def split: option.splits)
  have c1: "value_pool_data s2 8999 = \<lparr>alive = True, mark_bit = False, obj = NilCell\<rparr>"
    unfolding pd by (simp add: s1_def set_obj_def init_val_def initial_state_def initial_pool_def)
  have c2: "value_pool_data s2 8998 = \<lparr>alive = True, mark_bit = False, obj = Error out_of_memory 8999\<rparr>"
    unfolding pd by (simp add: s1_def set_obj_def init_val_def initial_state_def initial_pool_def)
  have c3: "alive (value_pool_data s2 8997)" "\<not> mark_bit (value_pool_data s2 8997)"
    unfolding pd by (simp_all add: s1_def set_obj_def init_val_def)
  have pv: "p_val (protected_mem s2 (c_stack s1)) = 8997"
    using f1(8) by (simp add: s2_def protect_def Protected_ctor_def Let_def)
  define s2m where "s2m = s2\<lparr>value_pool_data := set_mark 8998 (set_mark 8999 (value_pool_data s2))\<rparr>"
  have gm: "gc_mark 9000 s2 = Some s2m"
    unfolding s2m_def using gc_mark_two_roots[OF f c1 c2, of 8998] by simp
  have a: "alive (value_pool_data s2m 8997)" "\<not> mark_bit (value_pool_data s2m 8997)"
    using c3 by (simp_all add: s2m_def set_mark_def)
  have fr: "\<not> alive (value_pool_data (snd (gc_sweep s2m)) 8997)"
    by (rule gc_sweep_freed[OF _ a]) (simp add: VALUE_POOL_SIZE_def)
  define s3 where "s3 = (snd (gc_sweep s2m))\<lparr>gc_passes := gc_passes (snd (gc_sweep s2m)) + 1\<rparr>"
  have rg: "run_gc 9000 s2 = Some (fst (gc_sweep s2m), s3)"
    by (simp add: run_gc_def gm s3_def Let_def)
  have sc: "same_ctx s2 s3" using run_gc_ctx(1)[OF rg] .
  have pm: "protected_mem s3 = protected_mem s2" using sc by (simp add: same_ctx_def)
  have "\<not> alive (value_pool_data s3 8997)" using fr by (simp add: s3_def)
  then show "\<exists>s1 p s2 c s3.
      make_cons 9000 8999 8999 (initial_state 0) = Some (8997, s1) \<and>
      protect 8997 s1 = (p, s2) \<and> p_val (protected_mem s2 p) = 8997 \<and>
      protected_values s2 = None \<and> alive (value_pool_data s2 8997) \<and>
      run_gc 9000 s2 = Some (c, s3) \<and> p_val (protected_mem s3 p) = 8997 \<and>
      \<not> alive (value_pool_data s3 8997)"
    using mc pr pv f(8) c3(1) rg pm by auto
qed





















section \<open>C6: the round trip of the reader\<close>




end
